theory Spec2Isabelle
  imports Complex_Main "HOL-Library.Sublist"
begin

section \<open>Strings and characters\<close>

text \<open>
  A JavaScript string is a sequence of UTF-16 code units; a regular expression without
  the \<open>u\<close> flag works on code units. A code unit is modelled by its number.
\<close>

type_synonym jschar = nat
type_synonym jsstring = "nat list"

definition ascii :: "string \<Rightarrow> jsstring" where
  "ascii s = map of_char s"

definition isUpperAZ :: "jschar \<Rightarrow> bool" where
  "isUpperAZ c = (65 \<le> c \<and> c \<le> 90)"

definition isLowerAZ :: "jschar \<Rightarrow> bool" where
  "isLowerAZ c = (97 \<le> c \<and> c \<le> 122)"

text \<open>
  \<open>[A-Za-z]\<close>, and also \<open>[A-Z]\<close> under the \<open>i\<close> flag: without the \<open>u\<close> flag the
  canonicalisation of a code unit above 127 is never an ASCII character, so only the
  ASCII letters match.
\<close>

definition isLetter :: "jschar \<Rightarrow> bool" where
  "isLetter c = (isUpperAZ c \<or> isLowerAZ c)"

text \<open>\<open>\d\<close>\<close>

definition isDigit :: "jschar \<Rightarrow> bool" where
  "isDigit c = (48 \<le> c \<and> c \<le> 57)"

text \<open>\<open>[A-Z\d]\<close> under the \<open>i\<close> flag\<close>

definition isLetterOrDigit :: "jschar \<Rightarrow> bool" where
  "isLetterOrDigit c = (isLetter c \<or> isDigit c)"

text \<open>\<open>\w\<close>, which decides the word boundary \<open>\b\<close>\<close>

definition isWordChar :: "jschar \<Rightarrow> bool" where
  "isWordChar c = (isLetter c \<or> isDigit c \<or> c = 95)"

text \<open>
  \<open>\s\<close>, and what \<open>trim\<close> strips: the WhiteSpace and LineTerminator code points of
  ECMAScript (tab, LF, VT, FF, CR, space, NBSP, U+1680, U+2000 to U+200A, U+2028, U+2029,
  U+202F, U+205F, U+3000, U+FEFF).
\<close>

definition isSpace :: "jschar \<Rightarrow> bool" where
  "isSpace c = ((9 \<le> c \<and> c \<le> 13) \<or> c = 32 \<or> c = 160 \<or> c = 5760 \<or>
     (8192 \<le> c \<and> c \<le> 8202) \<or> c = 8232 \<or> c = 8233 \<or> c = 8239 \<or> c = 8287 \<or>
     c = 12288 \<or> c = 65279)"

text \<open>\<open>.\<close> matches every code unit but the line terminators LF, CR, U+2028, U+2029.\<close>

definition isDot :: "jschar \<Rightarrow> bool" where
  "isDot c = (c \<noteq> 10 \<and> c \<noteq> 13 \<and> c \<noteq> 8232 \<and> c \<noteq> 8233)"

text \<open>\<open>[\<pounds>$\<euro>\<yen>#@%&*]\<close>: U+00A3, \<open>$\<close>, U+20AC, U+00A5, \<open>#\<close>, \<open>@\<close>, \<open>%\<close>, \<open>&\<close>, \<open>*\<close>\<close>

definition isCurrencyEtc :: "jschar \<Rightarrow> bool" where
  "isCurrencyEtc c = (c = 163 \<or> c = 36 \<or> c = 8364 \<or> c = 165 \<or> c = 35 \<or> c = 64 \<or>
     c = 37 \<or> c = 38 \<or> c = 42)"

text \<open>\<open>[\<pounds>$\<euro>\<yen>#@%&*+=<>]\<close>: the former and \<open>+\<close>, \<open>=\<close>, \<open><\<close>, \<open>>\<close>\<close>

definition isWeird :: "jschar \<Rightarrow> bool" where
  "isWeird c = (isCurrencyEtc c \<or> c = 43 \<or> c = 61 \<or> c = 60 \<or> c = 62)"

text \<open>
  \<open>[\<pounds>$\<euro>\<yen>#@%&*+=<>\[\]{}|\\\/~`^]\<close>: the former and the brackets, braces, bar,
  backslash, slash, tilde, backquote and caret.
\<close>

definition isSpecial :: "jschar \<Rightarrow> bool" where
  "isSpecial c = (isWeird c \<or> c = 91 \<or> c = 93 \<or> c = 123 \<or> c = 125 \<or> c = 124 \<or>
     c = 92 \<or> c = 47 \<or> c = 126 \<or> c = 96 \<or> c = 94)"

text \<open>\<open>[A-Z0-9\-_]\<close> under the \<open>i\<close> flag\<close>

definition isTrackingChar :: "jschar \<Rightarrow> bool" where
  "isTrackingChar c = (isLetter c \<or> isDigit c \<or> c = 45 \<or> c = 95)"

definition asciiUpper :: "jschar \<Rightarrow> jschar" where
  "asciiUpper c = (if isLowerAZ c then c - 32 else c)"

text \<open>
  A literal ASCII letter \<open>x\<close> of a pattern under the \<open>i\<close> flag matches the code units
  whose canonical form is that of \<open>x\<close>: \<open>x\<close> in upper and in lower case.
\<close>

definition ciChar :: "jschar \<Rightarrow> jschar \<Rightarrow> bool" where
  "ciChar x c = (c < 128 \<and> asciiUpper c = asciiUpper x)"

text \<open>
  \<open>String.prototype.toUpperCase\<close>. On a string of ASCII characters it maps \<open>a\<close> to \<open>z\<close>
  to \<open>A\<close> to \<open>Z\<close>; on any other string it follows the Unicode case tables, which are
  not part of the program: they are the parameter \<open>U\<close>.
\<close>

definition toUpperCase :: "(jsstring \<Rightarrow> jsstring) \<Rightarrow> jsstring \<Rightarrow> jsstring" where
  "toUpperCase U s = (if list_all (\<lambda>c. c < 128) s then map asciiUpper s else U s)"

text \<open>\<open>String.prototype.trim\<close>\<close>

definition trim :: "jsstring \<Rightarrow> jsstring" where
  "trim s = rev (dropWhile isSpace (rev (dropWhile isSpace s)))"

text \<open>\<open>s.split(sep)\<close> for a separator of one code unit: the result is never empty.\<close>

fun split :: "jschar \<Rightarrow> jsstring \<Rightarrow> jsstring list" where
  "split sep [] = [[]]"
| "split sep (x # xs) =
     (if x = sep then [] # split sep xs
      else (case split sep xs of [] \<Rightarrow> [[x]] | l # ls \<Rightarrow> (x # l) # ls))"

text \<open>\<open>a.join(sep)\<close>\<close>

fun join :: "jsstring \<Rightarrow> jsstring list \<Rightarrow> jsstring" where
  "join sep [] = []"
| "join sep [x] = x"
| "join sep (x # y # ys) = x @ sep @ join sep (y # ys)"

section \<open>Regular expressions\<close>

text \<open>
  The patterns of the program are sequences of the following items: a character class,
  an optional class \<open>c?\<close>, a repeated class \<open>c*\<close> (both greedy), the word boundary \<open>\b\<close>
  and the anchors \<open>^\<close> and \<open>$\<close> (no \<open>m\<close> flag). \<open>c{1,2}\<close> is \<open>c\<close> followed by \<open>c?\<close>,
  and \<open>c{15,}\<close> is fifteen \<open>c\<close> followed by \<open>c*\<close>.
\<close>

datatype atom = Chr "jschar \<Rightarrow> bool" | Opt "jschar \<Rightarrow> bool" | Star "jschar \<Rightarrow> bool"
  | WordB | Bol | Eol

type_synonym regex = "atom list"

definition wordBefore :: "jschar option \<Rightarrow> bool" where
  "wordBefore p = (case p of None \<Rightarrow> False | Some c \<Rightarrow> isWordChar c)"

definition wordAt :: "jsstring \<Rightarrow> bool" where
  "wordAt s = (case s of [] \<Rightarrow> False | c # _ \<Rightarrow> isWordChar c)"

text \<open>
  The backtracking matcher at one position: \<open>p\<close> is the code unit before the position
  (\<open>None\<close> at the start of the input), \<open>s\<close> the input from the position on. The result
  lists the lengths of all the matches in the order in which backtracking finds them, so
  its head is the match that the engine returns.
\<close>

fun rx_ends :: "regex \<Rightarrow> jschar option \<Rightarrow> jsstring \<Rightarrow> nat list" where
  "rx_ends [] p s = [0]"
| "rx_ends (Chr c # r) p [] = []"
| "rx_ends (Chr c # r) p (x # xs) = (if c x then map Suc (rx_ends r (Some x) xs) else [])"
| "rx_ends (Opt c # r) p [] = rx_ends r p []"
| "rx_ends (Opt c # r) p (x # xs) =
     (if c x then map Suc (rx_ends r (Some x) xs) else []) @ rx_ends r p (x # xs)"
| "rx_ends (Star c # r) p [] = rx_ends r p []"
| "rx_ends (Star c # r) p (x # xs) =
     (if c x then map Suc (rx_ends (Star c # r) (Some x) xs) else []) @ rx_ends r p (x # xs)"
| "rx_ends (WordB # r) p s = (if wordBefore p \<noteq> wordAt s then rx_ends r p s else [])"
| "rx_ends (Bol # r) p s = (if p = None then rx_ends r p s else [])"
| "rx_ends (Eol # r) p s = (if s = [] then rx_ends r p s else [])"

text \<open>
  The search of a pattern without the \<open>g\<close> and \<open>y\<close> flags: the first position, from the
  left, at which the pattern matches. \<open>k\<close> is the index of the position.
\<close>

fun rx_search :: "regex \<Rightarrow> jschar option \<Rightarrow> jsstring \<Rightarrow> nat \<Rightarrow> (nat \<times> nat) option" where
  "rx_search r p [] k = (case rx_ends r p [] of [] \<Rightarrow> None | n # _ \<Rightarrow> Some (k, n))"
| "rx_search r p (x # xs) k =
     (case rx_ends r p (x # xs) of
        [] \<Rightarrow> rx_search r (Some x) xs (Suc k)
      | n # _ \<Rightarrow> Some (k, n))"

definition rx_exec :: "regex \<Rightarrow> jsstring \<Rightarrow> (nat \<times> nat) option" where
  "rx_exec r s = rx_search r None s 0"

text \<open>\<open>r.test(s)\<close>\<close>

definition rx_test :: "regex \<Rightarrow> jsstring \<Rightarrow> bool" where
  "rx_test r s = (rx_exec r s \<noteq> None)"

text \<open>
  \<open>s.match(r)\<close> for a pattern without the \<open>g\<close> flag: \<open>null\<close>, or an array whose element
  \<open>0\<close> is the matched text, which is all the program reads of it.
\<close>

definition str_match :: "regex \<Rightarrow> jsstring \<Rightarrow> jsstring option" where
  "str_match r s = (case rx_exec r s of None \<Rightarrow> None | Some (k, n) \<Rightarrow> Some (take n (drop k s)))"

text \<open>
  \<open>s.match(/[...]/g)\<close> for a pattern that is one character class: \<open>null\<close> when no code
  unit is in the class, else the array of the code units that are, in order.
\<close>

definition match_all :: "(jschar \<Rightarrow> bool) \<Rightarrow> jsstring \<Rightarrow> jsstring list option" where
  "match_all c s = (if filter c s = [] then None else Some (map (\<lambda>x. [x]) (filter c s)))"

text \<open>\<open>s.replace(/\s/g, '')\<close>\<close>

definition removeSpaces :: "jsstring \<Rightarrow> jsstring" where
  "removeSpaces s = filter (\<lambda>c. \<not> isSpace c) s"

section \<open>Values that may be null, and numbers\<close>

datatype error = TypeError

text \<open>\<open>a || b\<close> on arrays and \<open>null\<close>: an array is truthy, also the empty one.\<close>

definition js_or :: "'a list option \<Rightarrow> 'a list option \<Rightarrow> 'a list option" where
  "js_or a b = (case a of None \<Rightarrow> b | Some x \<Rightarrow> Some x)"

text \<open>\<open>a.length\<close> throws a TypeError on \<open>null\<close>.\<close>

definition js_length :: "'a list option \<Rightarrow> error + nat" where
  "js_length a = (case a of None \<Rightarrow> Inl TypeError | Some x \<Rightarrow> Inr (length x))"

text \<open>\<open>a[i]\<close> is \<open>undefined\<close> out of range.\<close>

definition js_nth :: "'a list \<Rightarrow> int \<Rightarrow> 'a option" where
  "js_nth a i = (if 0 \<le> i \<and> i < int (length a) then Some (a ! nat i) else None)"

text \<open>
  The quotient of two lengths. Division never throws: \<open>0 / 0\<close> is \<open>NaN\<close>, and every
  comparison with \<open>NaN\<close> is false. The program compares a quotient \<open>a / b\<close> only where
  \<open>b \<le> 50\<close>, and there the comparison of the rounded double with the double nearest to
  \<open>0.8\<close> or \<open>0.4\<close> agrees with the comparison of the exact fractions (a quotient that
  differs from \<open>4/5\<close> or \<open>2/5\<close> differs by at least \<open>1/250\<close>), so the fractions are exact here.
\<close>

datatype jsnum = Num rat | NaN | Infinity

definition js_div :: "nat \<Rightarrow> nat \<Rightarrow> jsnum" where
  "js_div a b = (if b = 0 then (if a = 0 then NaN else Infinity) else Num (of_nat a / of_nat b))"

definition js_gt :: "jsnum \<Rightarrow> rat \<Rightarrow> bool" where
  "js_gt x q = (case x of Num r \<Rightarrow> q < r | NaN \<Rightarrow> False | Infinity \<Rightarrow> True)"

definition js_lt :: "jsnum \<Rightarrow> rat \<Rightarrow> bool" where
  "js_lt x q = (case x of Num r \<Rightarrow> r < q | NaN \<Rightarrow> False | Infinity \<Rightarrow> False)"

section \<open>The postcode locator\<close>

text \<open>\<open>/\b[A-Z]{1,2}\d[A-Z\d]?\s*\d[A-Z]{2}\b/i\<close>\<close>

definition POSTCODE_REGEX :: regex where
  "POSTCODE_REGEX = [WordB, Chr isLetter, Opt isLetter, Chr isDigit, Opt isLetterOrDigit,
     Star isSpace, Chr isDigit, Chr isLetter, Chr isLetter, WordB]"

text \<open>The lines of the text: split at LF, trimmed, the empty ones dropped.\<close>

definition textLines :: "jsstring \<Rightarrow> jsstring list" where
  "textLines text = filter (\<lambda>line. length line > 0) (map trim (split 10 text))"

text \<open>
  The loop that looks for the first line with a postcode, from index \<open>i\<close> on; \<open>-1\<close> is
  the initial value of \<open>postcodeIndex\<close>, left when no line passes the test.
\<close>

function findPostcode :: "jsstring list \<Rightarrow> nat \<Rightarrow> int" where
  "findPostcode lines i =
     (if i < length lines
      then (if rx_test POSTCODE_REGEX (lines ! i) then int i else findPostcode lines (Suc i))
      else - 1)"
  by pat_completeness auto
termination
  by (relation "measure (\<lambda>(lines, i). length lines - i)") auto

section \<open>The noise classifier\<close>

text \<open>\<open>/[A-Za-z].*\d.*[\<pounds>$\<euro>\<yen>#@%&*]/\<close>\<close>

definition GARBLED_REGEX :: regex where
  "GARBLED_REGEX = [Chr isLetter, Star isDot, Chr isDigit, Star isDot, Chr isCurrencyEtc]"

text \<open>\<open>/^[A-Z0-9\-_]{15,}$/i\<close>\<close>

definition TRACKING_REGEX :: regex where
  "TRACKING_REGEX = Bol # replicate 15 (Chr isTrackingChar) @ [Star isTrackingChar, Eol]"

text \<open>
  \<open>/^(SHIP|DELIVERY|ADDRESS|TO|FROM|ORDER|TRACKING|PARCEL|REF)/i\<close>: nothing follows the
  group, so the pattern matches where one of its alternatives, anchored, does.
\<close>

definition headerKeywords :: "string list" where
  "headerKeywords = [''SHIP'', ''DELIVERY'', ''ADDRESS'', ''TO'', ''FROM'', ''ORDER'',
     ''TRACKING'', ''PARCEL'', ''REF'']"

definition HEADER_REGEX :: "regex list" where
  "HEADER_REGEX = map (\<lambda>kw. Bol # map (\<lambda>x. Chr (ciChar x)) (ascii kw)) headerKeywords"

definition header_test :: "jsstring \<Rightarrow> bool" where
  "header_test s = list_ex (\<lambda>r. rx_test r s) HEADER_REGEX"

text \<open>\<open>(s.match(/[...]/g) || []).length\<close>\<close>

definition countMatches :: "(jschar \<Rightarrow> bool) \<Rightarrow> jsstring \<Rightarrow> error + nat" where
  "countMatches c s = js_length (js_or (match_all c s) (Some []))"

definition isPackageMetadata :: "(jsstring \<Rightarrow> jsstring) \<Rightarrow> jsstring \<Rightarrow> error + bool" where
  "isPackageMetadata U line =
     (let trimmed = trim line in
      if length trimmed < 4 \<and> rx_test [Chr isWeird] trimmed then Inr True
      else (case countMatches isSpecial trimmed of Inl e \<Rightarrow> Inl e | Inr specialChars \<Rightarrow>
       (if specialChars > 2 \<or> (specialChars > 0 \<and> length trimmed < 8) then Inr True
        else if length trimmed > 3 \<and> \<not> rx_test [Chr isSpace] trimmed
                \<and> rx_test GARBLED_REGEX trimmed then Inr True
        else if length trimmed > 40 then Inr True
        else if rx_test TRACKING_REGEX (removeSpaces trimmed) then Inr True
        else if trimmed = toUpperCase U trimmed \<and> header_test trimmed then Inr True
        else (case countMatches isDigit trimmed of Inl e \<Rightarrow> Inl e | Inr digits \<Rightarrow>
         (let numRatio = js_div digits (length trimmed) in
          if js_gt numRatio (4 / 5) \<and> length trimmed > 10 then Inr True
          else (case countMatches isLetter trimmed of Inl e \<Rightarrow> Inl e | Inr letterCount \<Rightarrow>
           (if letterCount < 2 \<and> length trimmed > 5 then Inr True
            else Inr False)))))))"

definition isValidAddressLine :: "jsstring \<Rightarrow> error + bool" where
  "isValidAddressLine line =
     (let trimmed = trim line in
      if \<not> rx_test [Chr isLetter] trimmed then Inr False
      else if length trimmed < 2 \<or> length trimmed > 50 then Inr False
      else (case countMatches (\<lambda>c. isLetter c \<or> isSpace c) trimmed of
        Inl e \<Rightarrow> Inl e
      | Inr letterCount \<Rightarrow>
         (let letterRatio = js_div letterCount (length trimmed) in
          if js_lt letterRatio (2 / 5) \<and> length trimmed > 5 then Inr False
          else Inr True)))"

section \<open>The address assembler\<close>

text \<open>
  The backward loop. Its state is the index \<open>i\<close>, the array \<open>addressLines\<close> and the
  counter \<open>linesToCheck\<close>; the result is the state in which the loop ends. \<open>lines[i]\<close>
  out of range is \<open>undefined\<close>, whose \<open>trim\<close> throws.
\<close>

function walkBack :: "(jsstring \<Rightarrow> jsstring) \<Rightarrow> jsstring list \<Rightarrow> int \<Rightarrow> jsstring list \<Rightarrow> int
    \<Rightarrow> error + (int \<times> jsstring list \<times> int)" where
  "walkBack U lines i addressLines linesToCheck =
     (if i \<ge> 0 \<and> length addressLines < 4 \<and> linesToCheck > 0 then
        (case js_nth lines i of
           None \<Rightarrow> Inl TypeError
         | Some line \<Rightarrow>
            (case isPackageMetadata U line of
               Inl e \<Rightarrow> Inl e
             | Inr True \<Rightarrow> walkBack U lines (i - 1) addressLines (linesToCheck - 1)
             | Inr False \<Rightarrow>
                (case isValidAddressLine line of
                   Inl e \<Rightarrow> Inl e
                 | Inr False \<Rightarrow> walkBack U lines (i - 1) addressLines (linesToCheck - 1)
                 | Inr True \<Rightarrow>
                    if length addressLines \<ge> 4 then Inr (i, addressLines, linesToCheck)
                    else walkBack U lines (i - 1) (line # addressLines) (linesToCheck - 1))))
      else Inr (i, addressLines, linesToCheck))"
  by pat_completeness auto
termination
  by (relation "measure (\<lambda>(U, lines, i, addressLines, linesToCheck). nat (i + 1))") auto

definition separator :: jsstring where
  "separator = ascii '', ''"

definition extractAddress :: "(jsstring \<Rightarrow> jsstring) \<Rightarrow> jsstring \<Rightarrow> error + jsstring" where
  "extractAddress U text =
     (let lines = textLines text;
          postcodeIndex = findPostcode lines 0
      in if postcodeIndex = - 1 then Inr text
         else (case js_nth lines postcodeIndex of
           None \<Rightarrow> Inl TypeError
         | Some postcodeLine \<Rightarrow>
            (let postcodeMatch = str_match POSTCODE_REGEX postcodeLine;
                 postcode = (case postcodeMatch of Some m \<Rightarrow> m | None \<Rightarrow> postcodeLine)
             in (case walkBack U lines (postcodeIndex - 1) [] (min 8 postcodeIndex) of
                   Inl e \<Rightarrow> Inl e
                 | Inr (i, addressLines, linesToCheck) \<Rightarrow>
                     Inr (join separator (addressLines @ [postcode]))))))"

section \<open>The second version of the component\<close>

text \<open>
  The repository holds a second version of the component, whose \<open>extractAddress\<close> has
  the same locator and a simpler assembler: it takes the last four lines before the
  postcode line, from the top down, and skips only the empty lines, the lines of more
  than 50 code units, the runs of more than 15 tracking characters and the runs of more
  than 12 digits. It has no noise classifier.
\<close>

text \<open>\<open>/^[A-Z0-9\-_]+$/i\<close> and \<open>/^\d+$/\<close>\<close>

definition TRACKING_RUN_REGEX :: regex where
  "TRACKING_RUN_REGEX = [Bol, Chr isTrackingChar, Star isTrackingChar, Eol]"

definition DIGIT_RUN_REGEX :: regex where
  "DIGIT_RUN_REGEX = [Bol, Chr isDigit, Star isDigit, Eol]"

function forwardLoop :: "jsstring list \<Rightarrow> int \<Rightarrow> int \<Rightarrow> jsstring list \<Rightarrow> error + jsstring list" where
  "forwardLoop lines postcodeIndex i addressLines =
     (if i < postcodeIndex then
        (case js_nth lines i of
           None \<Rightarrow> Inl TypeError
         | Some l \<Rightarrow>
            (let line = trim l; noSpaces = removeSpaces line in
             if length line = 0 then forwardLoop lines postcodeIndex (i + 1) addressLines
             else if length line > 50 then forwardLoop lines postcodeIndex (i + 1) addressLines
             else if length noSpaces > 15 \<and> rx_test TRACKING_RUN_REGEX noSpaces
               then forwardLoop lines postcodeIndex (i + 1) addressLines
             else if rx_test DIGIT_RUN_REGEX noSpaces \<and> length noSpaces > 12
               then forwardLoop lines postcodeIndex (i + 1) addressLines
             else forwardLoop lines postcodeIndex (i + 1) (addressLines @ [line])))
      else Inr addressLines)"
  by pat_completeness auto
termination
  by (relation "measure (\<lambda>(lines, postcodeIndex, i, addressLines). nat (postcodeIndex - i))") auto

definition extractAddress_simple :: "jsstring \<Rightarrow> error + jsstring" where
  "extractAddress_simple text =
     (let lines = textLines text;
          postcodeIndex = findPostcode lines 0
      in if postcodeIndex = - 1 then Inr text
         else (case js_nth lines postcodeIndex of
           None \<Rightarrow> Inl TypeError
         | Some postcodeLine \<Rightarrow>
            (let postcodeMatch = str_match POSTCODE_REGEX postcodeLine;
                 postcode = (case postcodeMatch of Some m \<Rightarrow> m | None \<Rightarrow> postcodeLine);
                 startIndex = max 0 (postcodeIndex - 4)
             in (case forwardLoop lines postcodeIndex startIndex [] of
                   Inl e \<Rightarrow> Inl e
                 | Inr addressLines \<Rightarrow> Inr (join separator (addressLines @ [postcode]))))))"

section \<open>Notions used to state the properties\<close>

text \<open>A line is kept by the assembler when it is not noise and is a valid address line.\<close>

definition accepted :: "(jsstring \<Rightarrow> jsstring) \<Rightarrow> jsstring \<Rightarrow> bool" where
  "accepted U line = (isPackageMetadata U line = Inr False \<and> isValidAddressLine line = Inr True)"

text \<open>
  The trailing comma-separated component of a string: what follows the last occurrence
  of the separator \<open>", "\<close>, the whole string when there is none. The function works on
  the reversed string.
\<close>

fun trailingRev :: "jsstring \<Rightarrow> jsstring" where
  "trailingRev [] = []"
| "trailingRev [x] = [x]"
| "trailingRev (x # y # ys) = (if x = 32 \<and> y = 44 then [] else x # trailingRev (y # ys))"

definition trailingComponent :: "jsstring \<Rightarrow> jsstring" where
  "trailingComponent s = rev (trailingRev (rev s))"

text \<open>The code unit before the position that follows \<open>u\<close>, when \<open>p\<close> is the one before \<open>u\<close>.\<close>

definition prevOf :: "jschar option \<Rightarrow> jsstring \<Rightarrow> jschar option" where
  "prevOf p u = (if u = [] then p else Some (last u))"

text \<open>
  All the matches of a pattern in a string, as pairs of a position and a length: at every
  position, from the left, every length at which the pattern matches there.
\<close>

fun matchesFrom :: "regex \<Rightarrow> jschar option \<Rightarrow> jsstring \<Rightarrow> nat \<Rightarrow> (nat \<times> nat) list" where
  "matchesFrom r p [] k = map (Pair k) (rx_ends r p [])"
| "matchesFrom r p (x # xs) k =
     map (Pair k) (rx_ends r p (x # xs)) @ matchesFrom r (Some x) xs (Suc k)"

definition allMatches :: "regex \<Rightarrow> jsstring \<Rightarrow> (nat \<times> nat) list" where
  "allMatches r s = matchesFrom r None s 0"

text \<open>
  The postcode pattern as the glossary of the specification writes it,
  \<open>[A-Z]{1,2}\d[A-Z0-9]?\s*\d[A-Z]{2}\<close>, case-insensitive: the pattern of the program
  without its two word boundaries.
\<close>

definition GLOSSARY_PATTERN :: regex where
  "GLOSSARY_PATTERN = [Chr isLetter, Opt isLetter, Chr isDigit, Opt isLetterOrDigit,
     Star isSpace, Chr isDigit, Chr isLetter, Chr isLetter]"

text \<open>The code units that an item of a pattern can consume.\<close>

fun consumes :: "atom \<Rightarrow> jschar \<Rightarrow> bool" where
  "consumes (Chr c) x = c x"
| "consumes (Opt c) x = c x"
| "consumes (Star c) x = c x"
| "consumes WordB x = False"
| "consumes Bol x = False"
| "consumes Eol x = False"

text \<open>The last \<open>room\<close> accepted lines of a window of lines.\<close>

definition keptOf :: "(jsstring \<Rightarrow> jsstring) \<Rightarrow> jsstring list \<Rightarrow> nat \<Rightarrow> jsstring list" where
  "keptOf U window room =
     (let f = filter (accepted U) window in drop (length f - room) f)"

section \<open>Sample inputs\<close>

text \<open>Scenario B of the specification, and a label with five lines above the postcode.\<close>

definition scenarioB :: jsstring where
  "scenarioB = ascii ''SHIP TO'' @ [10] @ ascii ''3'' @ [163] @ [10] @ ascii ''JOHN SMITH'' @ [10]
     @ ascii ''42 HIGH STREET'' @ [10] @ ascii ''BELFAST'' @ [10] @ ascii ''BT1 1AA''"

definition fiveLines :: jsstring where
  "fiveLines = ascii ''FLAT 2'' @ [10] @ ascii ''JOHN SMITH'' @ [10] @ ascii ''42 HIGH STREET'' @ [10]
     @ ascii ''EAST END'' @ [10] @ ascii ''LONDON'' @ [10] @ ascii ''E1 6AN''"

text \<open>A postcode broken over two lines, and a text without a postcode.\<close>

definition brokenPostcode :: jsstring where
  "brokenPostcode = ascii ''E1'' @ [10] @ ascii ''6AN'' @ [10] @ ascii ''LONDON''"

definition noPostcode :: jsstring where
  "noPostcode = ascii ''JOHN SMITH'' @ [10] @ ascii ''42 HIGH STREET''"

section \<open>Evaluation and basic facts\<close>

declare walkBack.simps [simp del]
declare findPostcode.simps [simp del]
declare forwardLoop.simps [simp del]

lemmas class_defs = isUpperAZ_def isLowerAZ_def isLetter_def isDigit_def isLetterOrDigit_def
  isWordChar_def isSpace_def isDot_def isCurrencyEtc_def isWeird_def isSpecial_def
  isTrackingChar_def asciiUpper_def ciChar_def

lemma rx_test_eval: "rx_test r s = (case rx_search r None s 0 of None \<Rightarrow> False | Some m \<Rightarrow> True)"
  by (simp add: rx_test_def rx_exec_def split: option.splits)

lemma replicate_15: "replicate 15 x = [x, x, x, x, x, x, x, x, x, x, x, x, x, x, x]"
  by (simp add: eval_nat_numeral)

lemmas regex_defs = POSTCODE_REGEX_def GARBLED_REGEX_def TRACKING_REGEX_def HEADER_REGEX_def
  headerKeywords_def header_test_def replicate_15

lemmas eval_defs = rx_test_eval rx_exec_def str_match_def wordBefore_def wordAt_def match_all_def
  removeSpaces_def js_or_def js_length_def js_nth_def js_div_def js_gt_def js_lt_def
  countMatches_def toUpperCase_def trim_def ascii_def Let_def separator_def textLines_def

lemma countMatches_eq: "countMatches c s = Inr (length (filter c s))"
  by (simp add: countMatches_def match_all_def js_or_def js_length_def)

lemma ex_bool: "\<exists>b. b" "\<exists>b. \<not> b" "Ex Not"
  by auto

lemma isPackageMetadata_total: "\<exists>b. isPackageMetadata U line = Inr b"
  by (simp add: isPackageMetadata_def countMatches_eq Let_def ex_bool)

lemma isValidAddressLine_total: "\<exists>b. isValidAddressLine line = Inr b"
  by (simp add: isValidAddressLine_def countMatches_eq Let_def ex_bool)

lemma accepted_cases:
  "(accepted U line \<and> isPackageMetadata U line = Inr False \<and> isValidAddressLine line = Inr True)
   \<or> (\<not> accepted U line \<and> isPackageMetadata U line = Inr True)
   \<or> (\<not> accepted U line \<and> isPackageMetadata U line = Inr False \<and> isValidAddressLine line = Inr False)"
  using isPackageMetadata_total [of U line] isValidAddressLine_total [of line]
  by (auto simp: accepted_def)

lemma findPostcode_lower: "- 1 \<le> findPostcode lines i"
  by (induction lines i rule: findPostcode.induct) (subst findPostcode.simps, simp)

lemma findPostcode_none:
  "findPostcode lines i = - 1 \<longleftrightarrow> (\<forall>j. i \<le> j \<and> j < length lines \<longrightarrow> \<not> rx_test POSTCODE_REGEX (lines ! j))"
proof (induction lines i rule: findPostcode.induct)
  case (1 lines i)
  show ?case
  proof (cases "i < length lines")
    case False
    then show ?thesis by (subst findPostcode.simps) auto
  next
    case True
    show ?thesis
    proof (cases "rx_test POSTCODE_REGEX (lines ! i)")
      case t: True
      with True show ?thesis by (subst findPostcode.simps) auto
    next
      case f: False
      have "findPostcode lines i = findPostcode lines (Suc i)"
        using True f by (subst findPostcode.simps) simp
      moreover have "(\<forall>j. i \<le> j \<and> j < length lines \<longrightarrow> \<not> rx_test POSTCODE_REGEX (lines ! j))
          \<longleftrightarrow> (\<forall>j. Suc i \<le> j \<and> j < length lines \<longrightarrow> \<not> rx_test POSTCODE_REGEX (lines ! j))"
        using f by (metis Suc_leI le_eq_less_or_eq Suc_leD)
      ultimately show ?thesis using "1.IH" [OF True f] by simp
    qed
  qed
qed

lemma findPostcode_some:
  "findPostcode lines i = int k \<Longrightarrow>
     i \<le> k \<and> k < length lines \<and> rx_test POSTCODE_REGEX (lines ! k)
     \<and> (\<forall>j. i \<le> j \<and> j < k \<longrightarrow> \<not> rx_test POSTCODE_REGEX (lines ! j))"
proof (induction lines i rule: findPostcode.induct)
  case (1 lines i)
  show ?case
  proof (cases "i < length lines")
    case False
    then have "findPostcode lines i = - 1" by (subst findPostcode.simps) simp
    with "1.prems" show ?thesis by simp
  next
    case True
    show ?thesis
    proof (cases "rx_test POSTCODE_REGEX (lines ! i)")
      case t: True
      then have "findPostcode lines i = int i" using True by (subst findPostcode.simps) simp
      with "1.prems" have "k = i" by simp
      with True t show ?thesis by auto
    next
      case f: False
      have "findPostcode lines i = findPostcode lines (Suc i)"
        using True f by (subst findPostcode.simps) simp
      with "1.prems" have "findPostcode lines (Suc i) = int k" by simp
      from "1.IH" [OF True f this] show ?thesis
        using f by (metis Suc_leD le_eq_less_or_eq Suc_leI)
    qed
  qed
qed

section \<open>The backward loop\<close>

lemma walkBack_stop:
  "\<not> (0 \<le> i \<and> length acc < 4 \<and> 0 < ltc) \<Longrightarrow> walkBack U lines i acc ltc = Inr (i, acc, ltc)"
  by (subst walkBack.simps) auto

lemma walkBack_skip:
  assumes "0 \<le> i" "length acc < 4" "0 < ltc" "i < int (length lines)"
    and "\<not> accepted U (lines ! nat i)"
  shows "walkBack U lines i acc ltc = walkBack U lines (i - 1) acc (ltc - 1)"
  using assms accepted_cases [of U "lines ! nat i"]
  by (subst walkBack.simps) (auto simp: js_nth_def)

lemma walkBack_keep:
  assumes "0 \<le> i" "length acc < 4" "0 < ltc" "i < int (length lines)"
    and "accepted U (lines ! nat i)"
  shows "walkBack U lines i acc ltc = walkBack U lines (i - 1) (lines ! nat i # acc) (ltc - 1)"
  using assms by (subst walkBack.simps) (auto simp: js_nth_def accepted_def)

lemma keptOf_snoc_rejected:
  "\<not> accepted U line \<Longrightarrow> keptOf U (w @ [line]) room = keptOf U w room"
  by (simp add: keptOf_def)

lemma keptOf_snoc_accepted:
  "accepted U line \<Longrightarrow> keptOf U (w @ [line]) (Suc room) = keptOf U w room @ [line]"
  by (simp add: keptOf_def Let_def)

lemma keptOf_nil [simp]: "keptOf U [] room = []"
  by (simp add: keptOf_def)

lemma keptOf_zero [simp]: "keptOf U w 0 = []"
  by (simp add: keptOf_def)

lemma window_snoc:
  assumes "0 \<le> i" "i < int (length lines)" "0 < ltc" "ltc \<le> i + 1"
  shows "drop (nat (i + 1 - ltc)) (take (nat (i + 1)) lines)
       = drop (nat (i - 1 + 1 - (ltc - 1))) (take (nat (i - 1 + 1)) lines) @ [lines ! nat i]"
proof -
  define d where "d = nat (i + 1 - ltc)"
  define m where "m = nat i"
  have n: "nat (i + 1) = Suc m" using assms by (simp add: m_def)
  have lt: "m < length lines" using assms by (simp add: m_def)
  have le: "d \<le> m" using assms by (simp add: d_def m_def)
  have d': "nat (i - 1 + 1 - (ltc - 1)) = d" by (simp add: d_def)
  have m': "nat (i - 1 + 1) = m" by (simp add: m_def)
  have "take (Suc m) lines = take m lines @ [lines ! m]"
    using lt by (simp add: take_Suc_conv_app_nth)
  moreover have "d \<le> length (take m lines)" using le lt by simp
  ultimately have "drop d (take (Suc m) lines) = drop d (take m lines) @ [lines ! m]"
    by simp
  then show ?thesis unfolding d' m' n d_def [symmetric] m_def [symmetric] .
qed

lemma walkBack_result:
  assumes "- 1 \<le> i" "i < int (length lines)" "0 \<le> ltc" "ltc \<le> i + 1" "length acc \<le> 4"
  shows "\<exists>i' acc' ltc'. walkBack U lines i acc ltc = Inr (i', acc', ltc')
     \<and> acc' = keptOf U (drop (nat (i + 1 - ltc)) (take (nat (i + 1)) lines)) (4 - length acc) @ acc
     \<and> - 1 \<le> i' \<and> i - i' = ltc - ltc' \<and> 0 \<le> ltc'
     \<and> (i' < 0 \<or> 4 \<le> length acc' \<or> ltc' \<le> 0) \<and> length acc' \<le> 4"
  using assms
proof (induction "nat (i + 1)" arbitrary: i acc ltc)
  case 0
  then have i: "i = - 1" by simp
  with "0.prems" have l: "ltc = 0" by simp
  show ?case using i l "0.prems" by (simp add: walkBack_stop)
next
  case (Suc n)
  then have i0: "0 \<le> i" by simp
  show ?case
  proof (cases "length acc < 4 \<and> 0 < ltc")
    case False
    then have stop: "walkBack U lines i acc ltc = Inr (i, acc, ltc)"
      by (simp add: walkBack_stop)
    from False have "length acc = 4 \<or> ltc = 0" using Suc.prems by auto
    then have "keptOf U (drop (nat (i + 1 - ltc)) (take (nat (i + 1)) lines)) (4 - length acc) = []"
      using i0 by auto
    then show ?thesis using stop False Suc.prems i0 by auto
  next
    case True
    let ?line = "lines ! nat i"
    let ?w = "drop (nat (i - 1 + 1 - (ltc - 1))) (take (nat (i - 1 + 1)) lines)"
    have win: "drop (nat (i + 1 - ltc)) (take (nat (i + 1)) lines) = ?w @ [?line]"
      using window_snoc [of i lines ltc] i0 True Suc.prems by simp
    have n: "n = nat (i - 1 + 1)" using Suc.hyps(2) by simp
    have pre: "- 1 \<le> i - 1" "i - 1 < int (length lines)" "0 \<le> ltc - 1" "ltc - 1 \<le> i - 1 + 1"
      using i0 True Suc.prems by simp_all
    show ?thesis
    proof (cases "accepted U ?line")
      case False
      have step: "walkBack U lines i acc ltc = walkBack U lines (i - 1) acc (ltc - 1)"
        using walkBack_skip [of i acc ltc lines U] i0 True Suc.prems False by simp
      from Suc.hyps(1) [OF n pre Suc.prems(5)]
      obtain i' acc' ltc' where r: "walkBack U lines (i - 1) acc (ltc - 1) = Inr (i', acc', ltc')"
        "acc' = keptOf U ?w (4 - length acc) @ acc"
        "- 1 \<le> i'" "i - 1 - i' = ltc - 1 - ltc'" "0 \<le> ltc'"
        "i' < 0 \<or> 4 \<le> length acc' \<or> ltc' \<le> 0" "length acc' \<le> 4"
        by blast
      show ?thesis
        unfolding step win using r False by (simp add: keptOf_snoc_rejected)
    next
      case acc: True
      have step: "walkBack U lines i acc ltc = walkBack U lines (i - 1) (?line # acc) (ltc - 1)"
        using walkBack_keep [of i acc ltc lines U] i0 True Suc.prems acc by simp
      have la: "length (?line # acc) \<le> 4" using True by simp
      from Suc.hyps(1) [OF n pre la]
      obtain i' acc' ltc' where r: "walkBack U lines (i - 1) (?line # acc) (ltc - 1) = Inr (i', acc', ltc')"
        "acc' = keptOf U ?w (4 - length (?line # acc)) @ ?line # acc"
        "- 1 \<le> i'" "i - 1 - i' = ltc - 1 - ltc'" "0 \<le> ltc'"
        "i' < 0 \<or> 4 \<le> length acc' \<or> ltc' \<le> 0" "length acc' \<le> 4"
        by blast
      have room: "4 - length acc = Suc (4 - length (?line # acc))" using True by auto
      show ?thesis
        unfolding step win room using r acc by (simp add: keptOf_snoc_accepted)
    qed
  qed
qed


lemma inspected_snoc:
  assumes "0 \<le> i" "i < int (length lines)" "- 1 \<le> i'" "i' \<le> i - 1"
  shows "drop (nat (i' + 1)) (take (nat (i + 1)) lines)
       = drop (nat (i' + 1)) (take (nat (i - 1 + 1)) lines) @ [lines ! nat i]"
proof -
  define d where "d = nat (i' + 1)"
  define m where "m = nat i"
  have n: "nat (i + 1) = Suc m" using assms by (simp add: m_def)
  have lt: "m < length lines" using assms by (simp add: m_def)
  have le: "d \<le> m" using assms by (simp add: d_def m_def)
  have m': "nat (i - 1 + 1) = m" by (simp add: m_def)
  have "take (Suc m) lines = take m lines @ [lines ! m]"
    using lt by (simp add: take_Suc_conv_app_nth)
  moreover have "d \<le> length (take m lines)" using le lt by simp
  ultimately have "drop d (take (Suc m) lines) = drop d (take m lines) @ [lines ! m]"
    by simp
  then show ?thesis unfolding m' n d_def [symmetric] m_def [symmetric] .
qed

lemma walkBack_inspected:
  assumes "- 1 \<le> i" "i < int (length lines)" "0 \<le> ltc" "ltc \<le> i + 1" "length acc \<le> 4"
  shows "\<exists>i' acc' ltc'. walkBack U lines i acc ltc = Inr (i', acc', ltc')
     \<and> - 1 \<le> i' \<and> i' \<le> i
     \<and> acc' = filter (accepted U) (drop (nat (i' + 1)) (take (nat (i + 1)) lines)) @ acc
     \<and> (length acc < 4 \<and> length acc' = 4 \<longrightarrow> i' < i \<and> accepted U (lines ! nat (i' + 1)))"
  using assms
proof (induction "nat (i + 1)" arbitrary: i acc ltc)
  case 0
  then have i: "i = - 1" by simp
  show ?case using i by (auto simp add: walkBack_stop)
next
  case (Suc n)
  then have i0: "0 \<le> i" by simp
  show ?case
  proof (cases "length acc < 4 \<and> 0 < ltc")
    case False
    then have stop: "walkBack U lines i acc ltc = Inr (i, acc, ltc)"
      by (simp add: walkBack_stop)
    have "drop (nat (i + 1)) (take (nat (i + 1)) lines) = []" by simp
    then show ?thesis using stop i0 by auto
  next
    case True
    let ?line = "lines ! nat i"
    have n: "n = nat (i - 1 + 1)" using Suc.hyps(2) by simp
    have pre: "- 1 \<le> i - 1" "i - 1 < int (length lines)" "0 \<le> ltc - 1" "ltc - 1 \<le> i - 1 + 1"
      using i0 True Suc.prems by simp_all
    show ?thesis
    proof (cases "accepted U ?line")
      case False
      have step: "walkBack U lines i acc ltc = walkBack U lines (i - 1) acc (ltc - 1)"
        using walkBack_skip [of i acc ltc lines U] i0 True Suc.prems False by simp
      from Suc.hyps(1) [OF n pre Suc.prems(5)]
      obtain i' acc' ltc' where r: "walkBack U lines (i - 1) acc (ltc - 1) = Inr (i', acc', ltc')"
        "- 1 \<le> i'" "i' \<le> i - 1"
        "acc' = filter (accepted U) (drop (nat (i' + 1)) (take (nat (i - 1 + 1)) lines)) @ acc"
        "length acc < 4 \<and> length acc' = 4 \<longrightarrow> i' < i - 1 \<and> accepted U (lines ! nat (i' + 1))"
        by blast
      have ins: "drop (nat (i' + 1)) (take (nat (i + 1)) lines)
          = drop (nat (i' + 1)) (take (nat (i - 1 + 1)) lines) @ [?line]"
        using inspected_snoc [of i lines i'] i0 Suc.prems r by simp
      show ?thesis
        unfolding step using r False by (simp add: ins)
    next
      case acc: True
      have step: "walkBack U lines i acc ltc = walkBack U lines (i - 1) (?line # acc) (ltc - 1)"
        using walkBack_keep [of i acc ltc lines U] i0 True Suc.prems acc by simp
      have la: "length (?line # acc) \<le> 4" using True by simp
      from Suc.hyps(1) [OF n pre la]
      obtain i' acc' ltc' where r: "walkBack U lines (i - 1) (?line # acc) (ltc - 1) = Inr (i', acc', ltc')"
        "- 1 \<le> i'" "i' \<le> i - 1"
        "acc' = filter (accepted U) (drop (nat (i' + 1)) (take (nat (i - 1 + 1)) lines)) @ ?line # acc"
        "length (?line # acc) < 4 \<and> length acc' = 4 \<longrightarrow> i' < i - 1 \<and> accepted U (lines ! nat (i' + 1))"
        by blast
      have ins: "drop (nat (i' + 1)) (take (nat (i + 1)) lines)
          = drop (nat (i' + 1)) (take (nat (i - 1 + 1)) lines) @ [?line]"
        using inspected_snoc [of i lines i'] i0 Suc.prems r by simp
      have last: "length (?line # acc) = 4 \<Longrightarrow> i' = i - 1"
      proof -
        assume four: "length (?line # acc) = 4"
        then have "walkBack U lines (i - 1) (?line # acc) (ltc - 1) = Inr (i - 1, ?line # acc, ltc - 1)"
          by (simp add: walkBack_stop)
        with r(1) show "i' = i - 1" by simp
      qed
      show ?thesis
      proof (cases "length (?line # acc) = 4")
        case True
        with last have e: "i' = i - 1" by simp
        have "drop (nat (i' + 1)) (take (nat (i + 1)) lines) = [?line]"
          using ins e by simp
        then have "drop (nat i) (take (nat (i + 1)) lines) = [?line]"
          using e by simp
        then show ?thesis unfolding step using r acc i0 e by simp
      next
        case False
        with la have "length (?line # acc) < 4" by simp
        then show ?thesis unfolding step using r acc by (auto simp add: ins)
      qed
    qed
  qed
qed

section \<open>Facts about the matcher\<close>

lemma prevOf_Nil [simp]: "prevOf p [] = p"
  by (simp add: prevOf_def)

lemma prevOf_Cons [simp]: "prevOf p (x # u) = prevOf (Some x) u"
  by (simp add: prevOf_def)

lemma prevOf_append [simp]: "prevOf p (u @ v) = prevOf (prevOf p u) v"
  by (simp add: prevOf_def)

lemma rx_search_complete:
  "rx_ends r (prevOf p u) v \<noteq> [] \<Longrightarrow> rx_search r p (u @ v) k \<noteq> None"
proof (induction u arbitrary: p k)
  case Nil
  then show ?case by (cases v) (auto split: list.splits)
next
  case (Cons x u)
  then show ?case by (auto split: list.splits)
qed

lemma rx_search_sound:
  "rx_search r p s k = Some (j, n) \<Longrightarrow>
     \<exists>u v rest. s = u @ v \<and> j = k + length u \<and> rx_ends r (prevOf p u) v = n # rest
       \<and> (\<forall>u1 u2. u = u1 @ u2 \<and> u2 \<noteq> [] \<longrightarrow> rx_ends r (prevOf p u1) (u2 @ v) = [])"
proof (induction s arbitrary: p k)
  case Nil
  then show ?case by (auto split: list.splits)
next
  case (Cons x xs)
  show ?case
  proof (cases "rx_ends r p (x # xs)")
    case (Cons m ms)
    with Cons.prems have "j = k" "n = m" by simp_all
    with Cons show ?thesis by (intro exI [of _ "[]"] exI [of _ "x # xs"] exI [of _ ms]) simp
  next
    case Nil
    with Cons.prems have "rx_search r (Some x) xs (Suc k) = Some (j, n)" by simp
    from Cons.IH [OF this] obtain u v rest where r: "xs = u @ v" "j = Suc k + length u"
      "rx_ends r (prevOf (Some x) u) v = n # rest"
      "\<forall>u1 u2. u = u1 @ u2 \<and> u2 \<noteq> [] \<longrightarrow> rx_ends r (prevOf (Some x) u1) (u2 @ v) = []"
      by blast
    have "\<forall>u1 u2. x # u = u1 @ u2 \<and> u2 \<noteq> [] \<longrightarrow> rx_ends r (prevOf p u1) (u2 @ v) = []"
    proof (intro allI impI)
      fix u1 u2 assume a: "x # u = u1 @ u2 \<and> u2 \<noteq> []"
      show "rx_ends r (prevOf p u1) (u2 @ v) = []"
      proof (cases u1)
        case Nil
        with a have "u2 @ v = x # xs" using r(1) by simp
        with Nil \<open>rx_ends r p (x # xs) = []\<close> show ?thesis by simp
      next
        case (Cons y u1')
        with a have "y = x" "u = u1' @ u2" by simp_all
        with r(4) a Cons show ?thesis by simp
      qed
    qed
    with r show ?thesis
      by (intro exI [of _ "x # u"] exI [of _ v] exI [of _ rest]) simp
  qed
qed

lemma rx_test_iff:
  "rx_test r s \<longleftrightarrow> (\<exists>u v. s = u @ v \<and> rx_ends r (prevOf None u) v \<noteq> [])"
proof
  assume "rx_test r s"
  then obtain j n where "rx_search r None s 0 = Some (j, n)"
    by (auto simp: rx_test_def rx_exec_def)
  from rx_search_sound [OF this] show "\<exists>u v. s = u @ v \<and> rx_ends r (prevOf None u) v \<noteq> []"
    by fastforce
next
  assume "\<exists>u v. s = u @ v \<and> rx_ends r (prevOf None u) v \<noteq> []"
  then show "rx_test r s"
    using rx_search_complete [of r None _ _ 0] by (auto simp: rx_test_def rx_exec_def)
qed

lemma rx_ends_Chr: "rx_ends [Chr c] p s = (case s of [] \<Rightarrow> [] | x # xs \<Rightarrow> if c x then [1] else [])"
  by (cases s) auto

lemma rx_test_Chr: "rx_test [Chr c] s \<longleftrightarrow> (\<exists>x \<in> set s. c x)"
proof
  assume "rx_test [Chr c] s"
  then obtain u v where "s = u @ v" "rx_ends [Chr c] (prevOf None u) v \<noteq> []"
    unfolding rx_test_iff by blast
  then show "\<exists>x \<in> set s. c x"
    by (cases v) (auto simp: rx_ends_Chr split: if_splits)
next
  assume "\<exists>x \<in> set s. c x"
  then obtain x where "x \<in> set s" "c x" by blast
  then obtain u v where "s = u @ x # v" by (meson split_list)
  moreover have "rx_ends [Chr c] (prevOf None u) (x # v) \<noteq> []" using \<open>c x\<close> by simp
  ultimately show "rx_test [Chr c] s" unfolding rx_test_iff by blast
qed

lemma rx_ends_Star_skip:
  "list_all c b \<Longrightarrow> n \<in> set (rx_ends r (prevOf p b) s)
     \<Longrightarrow> length b + n \<in> set (rx_ends (Star c # r) p (b @ s))"
proof (induction b arbitrary: p)
  case Nil
  then show ?case by (cases s) auto
next
  case (Cons x b)
  then show ?case by auto
qed

lemma dropWhile_none: "\<forall>x \<in> set s. \<not> P x \<Longrightarrow> dropWhile P s = s"
  by (cases s) auto

lemma trim_no_space: "\<forall>x \<in> set s. \<not> isSpace x \<Longrightarrow> trim s = s"
  by (simp add: trim_def dropWhile_none)

lemma isDot_if_no_space: "\<not> isSpace x \<Longrightarrow> isDot x"
  by (auto simp: isSpace_def isDot_def)

lemma garbled_match:
  assumes "list_all isDot b" "list_all isDot c" "isLetter x" "isDigit y" "isCurrencyEtc z"
  shows "rx_test GARBLED_REGEX (a @ [x] @ b @ [y] @ c @ [z] @ d)"
proof -
  have 1: "1 \<in> set (rx_ends [Chr isCurrencyEtc] (prevOf (Some y) c) (z # d))"
    using assms by simp
  have 2: "length c + 1 \<in> set (rx_ends [Star isDot, Chr isCurrencyEtc] (Some y) (c @ z # d))"
    using rx_ends_Star_skip [OF assms(2) 1] .
  have 3: "Suc (length c + 1) \<in> set (rx_ends [Chr isDigit, Star isDot, Chr isCurrencyEtc]
      (prevOf (Some x) b) (y # c @ z # d))"
    using 2 assms by simp
  have 4: "length b + Suc (length c + 1) \<in> set (rx_ends [Star isDot, Chr isDigit, Star isDot,
      Chr isCurrencyEtc] (Some x) (b @ y # c @ z # d))"
    using rx_ends_Star_skip [OF assms(1) 3] .
  have "Suc (length b + Suc (length c + 1)) \<in> set (rx_ends GARBLED_REGEX (prevOf None a)
      (x # b @ y # c @ z # d))"
    using 4 assms by (simp add: GARBLED_REGEX_def)
  then have "rx_ends GARBLED_REGEX (prevOf None a) (x # b @ y # c @ z # d) \<noteq> []"
    by auto
  then show ?thesis
    unfolding rx_test_iff by (intro exI [of _ a] exI [of _ "x # b @ y # c @ z # d"]) simp
qed

lemma rx_ends_bound: "n \<in> set (rx_ends r p s) \<Longrightarrow> n \<le> length s"
  by (induction r p s arbitrary: n rule: rx_ends.induct) (auto split: if_splits)

lemma rx_ends_consumes:
  "n \<in> set (rx_ends r p s) \<Longrightarrow> y \<in> set (take n s) \<Longrightarrow> \<exists>a \<in> set r. consumes a y"
proof (induction r p s arbitrary: n rule: rx_ends.induct)
  case (3 c r p x xs)
  then obtain m where m: "n = Suc m" "m \<in> set (rx_ends r (Some x) xs)" "c x"
    by (auto split: if_splits)
  with 3 have "y = x \<or> y \<in> set (take m xs)" by auto
  then show ?case using 3 m by fastforce
next
  case (5 c r p x xs)
  show ?case
  proof (cases "n \<in> set (rx_ends r p (x # xs))")
    case True
    with 5 show ?thesis by fastforce
  next
    case False
    with 5 obtain m where m: "n = Suc m" "m \<in> set (rx_ends r (Some x) xs)" "c x"
      by (auto split: if_splits)
    with 5 have "y = x \<or> y \<in> set (take m xs)" by auto
    then show ?thesis using 5 m by fastforce
  qed
next
  case (7 c r p x xs)
  show ?case
  proof (cases "n \<in> set (rx_ends r p (x # xs))")
    case True
    with 7 show ?thesis by fastforce
  next
    case False
    with 7 obtain m where m: "n = Suc m" "m \<in> set (rx_ends (Star c # r) (Some x) xs)" "c x"
      by (auto split: if_splits)
    with 7 have "y = x \<or> y \<in> set (take m xs)" by auto
    then show ?thesis using 7 m by fastforce
  qed
qed (auto split: if_splits)

lemma filter_le_map_Suc:
  "filter (\<lambda>n. n \<le> Suc m) (map Suc ns) = map Suc (filter (\<lambda>n. n \<le> m) ns)"
  by (induction ns) auto

lemma filter_le0_map_Suc: "filter (\<lambda>n. n \<le> 0) (map Suc ns) = []"
  by (induction ns) auto

lemma rx_ends_cut_empty:
  "Eol \<notin> set r \<Longrightarrow> \<not> wordAt b \<Longrightarrow> filter (\<lambda>n. n \<le> 0) (rx_ends r p b) = rx_ends r p []"
proof (induction r arbitrary: p)
  case Nil
  then show ?case by simp
next
  case (Cons a r)
  show ?case
  proof (cases a)
    case (Chr c)
    then show ?thesis by (cases b) (auto simp: filter_le0_map_Suc)
  next
    case (Opt c)
    then show ?thesis using Cons by (cases b) (auto simp: filter_le0_map_Suc)
  next
    case (Star c)
    then show ?thesis using Cons by (cases b) (auto simp: filter_le0_map_Suc)
  next
    case WordB
    then show ?thesis using Cons by (auto simp: wordAt_def)
  next
    case Bol
    then show ?thesis using Cons by auto
  next
    case Eol
    then show ?thesis using Cons by auto
  qed
qed

lemma wordAt_append: "wordAt (s @ b) = (if s = [] then wordAt b else wordAt s)"
  by (cases s) (auto simp: wordAt_def)

lemma rx_ends_cut:
  "Eol \<notin> set r \<Longrightarrow> \<not> wordAt b \<Longrightarrow>
     filter (\<lambda>n. n \<le> length a) (rx_ends r p (a @ b)) = rx_ends r p a"
proof (induction r p a rule: rx_ends.induct)
  case (1 p s)
  then show ?case by simp
next
  case (2 c r p)
  then show ?case using rx_ends_cut_empty [of "Chr c # r" b p] by simp
next
  case (3 c r p x xs)
  then show ?case by (simp add: filter_le_map_Suc)
next
  case (4 c r p)
  then show ?case using rx_ends_cut_empty [of "Opt c # r" b p] by simp
next
  case (5 c r p x xs)
  then show ?case by (simp add: filter_le_map_Suc)
next
  case (6 c r p)
  then show ?case using rx_ends_cut_empty [of "Star c # r" b p] by simp
next
  case (7 c r p x xs)
  then show ?case by (simp add: filter_le_map_Suc)
next
  case (8 r p s)
  show ?case
  proof (cases s)
    case Nil
    then show ?thesis using 8 rx_ends_cut_empty [of "WordB # r" b p] by simp
  next
    case (Cons x xs)
    then have "wordAt (s @ b) = wordAt s" by (simp add: wordAt_def)
    then show ?thesis using 8 by simp
  qed
next
  case (9 r p s)
  then show ?case by auto
next
  case (10 r p s)
  then show ?case by auto
qed

lemma rx_ends_prev:
  "Bol \<notin> set r \<Longrightarrow> wordBefore p = wordBefore p' \<Longrightarrow> rx_ends r p s = rx_ends r p' s"
  by (induction r p s arbitrary: p' rule: rx_ends.induct) auto

lemma rx_ends_append:
  "set (rx_ends (r1 @ r2) p s) =
     (\<Union>n1 \<in> set (rx_ends r1 p s).
        (\<lambda>n2. n1 + n2) ` set (rx_ends r2 (prevOf p (take n1 s)) (drop n1 s)))"
proof (induction r1 p s rule: rx_ends.induct)
  case (3 c r p x xs)
  then show ?case by (cases "c x") (simp_all add: image_UN image_image)
next
  case (5 c r p x xs)
  then show ?case by (cases "c x") (simp_all add: image_UN image_image UN_Un)
next
  case (7 c r p x xs)
  then show ?case by (cases "c x") (simp_all add: image_UN image_image UN_Un)
next
  case (8 r p s)
  then show ?case by (cases "wordBefore p \<noteq> wordAt s") simp_all
next
  case (9 r p s)
  then show ?case by (cases p) simp_all
next
  case (10 r p s)
  then show ?case by (cases "s = []") simp_all
qed simp_all

section \<open>Facts about strings\<close>

lemma split_nonempty [simp]: "split sep s \<noteq> []"
  by (induction s) (auto split: list.splits)

lemma join_Cons: "ys \<noteq> [] \<Longrightarrow> join sp (x # ys) = x @ sp @ join sp ys"
  by (cases ys) auto

lemma join_append:
  "xs \<noteq> [] \<Longrightarrow> ys \<noteq> [] \<Longrightarrow> join sp (xs @ ys) = join sp xs @ sp @ join sp ys"
proof (induction xs)
  case Nil
  then show ?case by simp
next
  case (Cons x xs)
  then show ?case by (cases "xs = []") (simp_all add: join_Cons)
qed

lemma join_hd_Cons: "join sp ((x # l) # ls) = x # join sp (l # ls)"
  by (cases ls) auto

lemma join_split: "join [sep] (split sep s) = s"
proof (induction s)
  case Nil
  then show ?case by simp
next
  case (Cons x xs)
  then show ?case by (auto simp: join_Cons join_hd_Cons split: list.splits)
qed

lemma split_no_sep: "l \<in> set (split sep s) \<Longrightarrow> sep \<notin> set l"
  by (induction s arbitrary: l) (auto split: if_splits list.splits)

lemma join_middle:
  "\<exists>A B. join [sep] (P1 @ [x] @ P2) = A @ x @ B \<and> (A = [] \<or> last A = sep) \<and> (B = [] \<or> hd B = sep)"
proof -
  have 1: "\<exists>B. join [sep] ([x] @ P2) = x @ B \<and> (B = [] \<or> hd B = sep)"
    by (cases "P2 = []") (auto simp: join_Cons)
  show ?thesis
  proof (cases "P1 = []")
    case True
    from 1 obtain B where B: "join [sep] ([x] @ P2) = x @ B" "B = [] \<or> hd B = sep" by blast
    then have "join [sep] (P1 @ [x] @ P2) = [] @ x @ B" using True by simp
    with B(2) show ?thesis by blast
  next
    case False
    from 1 obtain B where B: "join [sep] ([x] @ P2) = x @ B" "B = [] \<or> hd B = sep" by blast
    have "join [sep] (P1 @ [x] @ P2) = (join [sep] P1 @ [sep]) @ x @ B"
      using False B by (simp add: join_append)
    moreover have "last (join [sep] P1 @ [sep]) = sep" by simp
    ultimately show ?thesis using B(2) by blast
  qed
qed

lemma split_piece:
  assumes "piece \<in> set (split sep s)"
  shows "\<exists>A B. s = A @ piece @ B \<and> (A = [] \<or> last A = sep) \<and> (B = [] \<or> hd B = sep)"
proof -
  from assms obtain P1 P2 where "split sep s = P1 @ [piece] @ P2"
    by (metis append_Cons append_Nil split_list)
  then have "s = join [sep] (P1 @ [piece] @ P2)" using join_split [of sep s] by simp
  then show ?thesis using join_middle [of sep P1 piece P2] by simp
qed

lemma trim_parts:
  "\<exists>w1 w2. s = w1 @ trim s @ w2 \<and> (\<forall>x \<in> set w1. isSpace x) \<and> (\<forall>x \<in> set w2. isSpace x)"
proof -
  let ?t = "dropWhile isSpace s"
  have 1: "s = takeWhile isSpace s @ ?t" by simp
  have "?t = rev (takeWhile isSpace (rev ?t) @ dropWhile isSpace (rev ?t))"
    by (metis rev_rev_ident takeWhile_dropWhile_id)
  then have 2: "?t = trim s @ rev (takeWhile isSpace (rev ?t))"
    unfolding trim_def rev_append .
  have "s = takeWhile isSpace s @ trim s @ rev (takeWhile isSpace (rev ?t))"
    using 1 2 by metis
  moreover have "\<forall>x \<in> set (takeWhile isSpace s). isSpace x"
    by (meson set_takeWhileD)
  moreover have "\<forall>x \<in> set (rev (takeWhile isSpace (rev ?t))). isSpace x"
    by (metis set_rev set_takeWhileD)
  ultimately show ?thesis by blast
qed

lemma hd_dropWhile': "dropWhile P s \<noteq> [] \<Longrightarrow> \<not> P (hd (dropWhile P s))"
  by (metis hd_dropWhile)

lemma trim_ends:
  assumes "trim s \<noteq> []"
  shows "\<not> isSpace (hd (trim s))" "\<not> isSpace (last (trim s))"
proof -
  let ?t = "dropWhile isSpace s"
  let ?u = "dropWhile isSpace (rev ?t)"
  have u: "?u \<noteq> []" using assms by (simp add: trim_def)
  then have "\<not> isSpace (hd ?u)" by (rule hd_dropWhile')
  then show "\<not> isSpace (last (trim s))" using u by (simp add: trim_def last_rev)
  have t: "?t \<noteq> []" using u by (metis dropWhile.simps(1) rev.simps(1))
  then have h: "\<not> isSpace (hd ?t)" by (rule hd_dropWhile')
  from trim_parts [of ?t] obtain w1 w2 where w: "?t = w1 @ trim ?t @ w2" "\<forall>x \<in> set w1. isSpace x"
    by blast
  have tt: "trim ?t = trim s" by (simp add: trim_def dropWhile_idem)
  have "w1 = []"
  proof (rule ccontr)
    assume "w1 \<noteq> []"
    then have "hd ?t = hd w1" "hd w1 \<in> set w1" using w(1) by (metis hd_append2, simp)
    with w(2) h show False by simp
  qed
  with w(1) tt have "?t = trim s @ w2" by simp
  with assms have "hd ?t = hd (trim s)" by (metis hd_append2)
  with h show "\<not> isSpace (hd (trim s))" by simp
qed

lemma space_not_word: "isSpace c \<Longrightarrow> \<not> isWordChar c"
  by (auto simp: class_defs)

lemma trim_subset: "set (trim s) \<subseteq> set s"
  using trim_parts [of s] by (metis Un_upper1 Un_upper2 set_append subset_trans)

lemma line_in_text:
  assumes "l \<in> set (textLines text)"
  shows "\<exists>A B. text = A @ l @ B \<and> \<not> wordBefore (prevOf None A) \<and> \<not> wordAt B"
    and "l \<noteq> []" and "10 \<notin> set l" and "\<not> isSpace (hd l)" and "\<not> isSpace (last l)"
proof -
  from assms obtain piece where piece: "piece \<in> set (split 10 text)" "l = trim piece" "l \<noteq> []"
    by (auto simp: textLines_def)
  show "l \<noteq> []" by fact
  show "\<not> isSpace (hd l)" "\<not> isSpace (last l)" using piece trim_ends [of piece] by simp_all
  show "10 \<notin> set l" using piece split_no_sep [of piece 10 "text"] trim_subset [of piece] by auto
  from split_piece [OF piece(1)] obtain A0 B0 where t: "text = A0 @ piece @ B0"
    "A0 = [] \<or> last A0 = 10" "B0 = [] \<or> hd B0 = 10" by blast
  from trim_parts [of piece] piece(2) obtain w1 w2 where w: "piece = w1 @ l @ w2"
    "\<forall>x \<in> set w1. isSpace x" "\<forall>x \<in> set w2. isSpace x" by blast
  have 1: "text = (A0 @ w1) @ l @ (w2 @ B0)" using t w by simp
  have 2: "\<not> wordBefore (prevOf None (A0 @ w1))"
  proof (cases "w1 = []")
    case True
    then show ?thesis using t(2) by (cases "A0 = []") (auto simp: prevOf_def wordBefore_def class_defs)
  next
    case False
    then have "isSpace (last w1)" using w(2) by simp
    then show ?thesis using False by (simp add: prevOf_def wordBefore_def space_not_word)
  qed
  have 3: "\<not> wordAt (w2 @ B0)"
  proof (cases w2)
    case Nil
    then show ?thesis using t(3) by (cases B0) (auto simp: wordAt_def class_defs)
  next
    case (Cons x xs)
    then have "isSpace x" using w(3) by simp
    then show ?thesis using Cons by (simp add: wordAt_def space_not_word)
  qed
  from 1 2 3 show "\<exists>A B. text = A @ l @ B \<and> \<not> wordBefore (prevOf None A) \<and> \<not> wordAt B"
    by blast
qed

section \<open>Matches in context\<close>

lemma POSTCODE_no_anchor: "Eol \<notin> set POSTCODE_REGEX" "Bol \<notin> set POSTCODE_REGEX"
  by (simp_all add: POSTCODE_REGEX_def)

text \<open>A match inside a part of the input that is delimited by non-word characters is a match in the whole input.\<close>

lemma match_embeds:
  assumes "Eol \<notin> set r" "Bol \<notin> set r"
    and "\<not> wordBefore (prevOf None A)" "\<not> wordAt B"
    and "n \<in> set (rx_ends r (prevOf None u) v)"
  shows "n \<in> set (rx_ends r (prevOf None (A @ u)) (v @ B))"
proof -
  have "wordBefore (prevOf None (A @ u)) = wordBefore (prevOf None u)"
    using assms(3) by (cases "u = []") (auto simp: prevOf_def wordBefore_def)
  then have "rx_ends r (prevOf None (A @ u)) v = rx_ends r (prevOf None u) v"
    using rx_ends_prev [OF assms(2)] by blast
  moreover have "filter (\<lambda>n. n \<le> length v) (rx_ends r (prevOf None (A @ u)) (v @ B))
      = rx_ends r (prevOf None (A @ u)) v"
    using rx_ends_cut [OF assms(1,4)] .
  ultimately have "n \<in> set (filter (\<lambda>n. n \<le> length v) (rx_ends r (prevOf None (A @ u)) (v @ B)))"
    using assms(5) by simp
  then show ?thesis by simp
qed

lemma test_embeds:
  assumes "Eol \<notin> set r" "Bol \<notin> set r"
    and "\<not> wordBefore (prevOf None A)" "\<not> wordAt B"
    and "rx_test r l"
  shows "rx_test r (A @ l @ B)"
proof -
  from assms(5) obtain u v where uv: "l = u @ v" "rx_ends r (prevOf None u) v \<noteq> []"
    unfolding rx_test_iff by blast
  then obtain n where "n \<in> set (rx_ends r (prevOf None u) v)"
    by (meson last_in_set)
  from match_embeds [OF assms(1-4) this]
  have "rx_ends r (prevOf None (A @ u)) (v @ B) \<noteq> []" by auto
  moreover have "A @ l @ B = (A @ u) @ (v @ B)" using uv by simp
  ultimately show ?thesis unfolding rx_test_iff by blast
qed

lemma rx_search_skip:
  "(\<forall>u1 u2. u = u1 @ u2 \<and> u2 \<noteq> [] \<longrightarrow> rx_ends r (prevOf p u1) (u2 @ v) = [])
     \<Longrightarrow> rx_search r p (u @ v) q = rx_search r (prevOf p u) v (q + length u)"
proof (induction u arbitrary: p q)
  case Nil
  then show ?case by simp
next
  case (Cons x u)
  have "rx_ends r (prevOf p []) ((x # u) @ v) = []" using Cons.prems by blast
  then have 1: "rx_search r p ((x # u) @ v) q = rx_search r (Some x) (u @ v) (Suc q)" by simp
  have "\<forall>u1 u2. u = u1 @ u2 \<and> u2 \<noteq> [] \<longrightarrow> rx_ends r (prevOf (Some x) u1) (u2 @ v) = []"
  proof (intro allI impI)
    fix u1 u2 assume "u = u1 @ u2 \<and> u2 \<noteq> []"
    then have "x # u = (x # u1) @ u2 \<and> u2 \<noteq> []" by simp
    with Cons.prems have "rx_ends r (prevOf p (x # u1)) (u2 @ v) = []" by blast
    then show "rx_ends r (prevOf (Some x) u1) (u2 @ v) = []" by simp
  qed
  from Cons.IH [OF this] 1 show ?case by simp
qed

lemma rx_search_here:
  "rx_ends r p s = n # rest \<Longrightarrow> rx_search r p s q = Some (q, n)"
  by (cases s) simp_all

lemma postcode_start:
  assumes "n \<in> set (rx_ends POSTCODE_REGEX p s)"
  shows "\<not> wordBefore p" "s \<noteq> []" "isLetter (hd s)"
proof -
  from assms obtain x xs where s: "s = x # xs"
    by (cases s) (auto simp: POSTCODE_REGEX_def split: if_splits)
  with assms have "isLetter x" "wordBefore p \<noteq> wordAt s"
    by (auto simp: POSTCODE_REGEX_def split: if_splits)
  then show "\<not> wordBefore p" "s \<noteq> []" "isLetter (hd s)"
    using s by (auto simp: wordAt_def isWordChar_def)
qed

lemma postcode_chars:
  assumes "n \<in> set (rx_ends POSTCODE_REGEX p s)" "y \<in> set (take n s)"
  shows "isLetterOrDigit y \<or> isSpace y"
proof -
  from rx_ends_consumes [OF assms] obtain a where "a \<in> set POSTCODE_REGEX" "consumes a y"
    by blast
  then show ?thesis by (auto simp: POSTCODE_REGEX_def isLetterOrDigit_def)
qed

lemma postcode_end:
  assumes "n \<in> set (rx_ends POSTCODE_REGEX p s)"
  shows "0 < n" "n \<le> length s" "isLetter (s ! (n - 1))" "\<not> wordAt (drop n s)"
proof -
  have split: "POSTCODE_REGEX = [WordB, Chr isLetter, Opt isLetter, Chr isDigit, Opt isLetterOrDigit,
     Star isSpace, Chr isDigit, Chr isLetter] @ [Chr isLetter, WordB]"
    by (simp add: POSTCODE_REGEX_def)
  from assms obtain n1 n2 where n: "n = n1 + n2"
    "n2 \<in> set (rx_ends [Chr isLetter, WordB] (prevOf p (take n1 s)) (drop n1 s))"
    unfolding split rx_ends_append by blast
  then obtain x xs where d: "drop n1 s = x # xs"
    by (cases "drop n1 s") auto
  with n have x: "isLetter x" "n2 = 1" "wordBefore (Some x) \<noteq> wordAt xs"
    by (auto split: if_splits)
  show "n \<le> length s" using assms by (rule rx_ends_bound)
  show "0 < n" using n x by simp
  have "s ! n1 = x" using d by (rule nth_via_drop)
  then show "isLetter (s ! (n - 1))" using n x by simp
  have "drop (Suc n1) s = tl (drop n1 s)" by (simp add: drop_Suc tl_drop)
  then have "drop n s = xs" using d n x by simp
  moreover have "\<not> wordAt xs" using x by (simp add: wordBefore_def isWordChar_def)
  ultimately show "\<not> wordAt (drop n s)" by simp
qed

lemma letter_not_space: "isLetter c \<Longrightarrow> \<not> isSpace c"
  by (auto simp: class_defs)

lemma letter_or_digit_not_comma: "isLetterOrDigit c \<or> isSpace c \<Longrightarrow> c \<noteq> 44"
  by (auto simp: class_defs)

text \<open>The matched postcode, taken out of its line, still matches as a whole, and first.\<close>

lemma postcode_alone:
  assumes "rx_ends POSTCODE_REGEX p v = n # rest" "\<not> wordBefore p'"
  shows "\<exists>rest'. rx_ends POSTCODE_REGEX p' (take n v) = n # rest'"
proof -
  have n: "n \<in> set (rx_ends POSTCODE_REGEX p v)" using assms(1) by simp
  have le: "n \<le> length v" using n by (rule rx_ends_bound)
  have "wordBefore p' = wordBefore p" using postcode_start(1) [OF n] assms(2) by simp
  then have "rx_ends POSTCODE_REGEX p' (take n v @ drop n v) = n # rest"
    using rx_ends_prev [OF POSTCODE_no_anchor(2), of p' p] assms(1) by simp
  moreover have "filter (\<lambda>m. m \<le> length (take n v)) (rx_ends POSTCODE_REGEX p' (take n v @ drop n v))
      = rx_ends POSTCODE_REGEX p' (take n v)"
    using rx_ends_cut [OF POSTCODE_no_anchor(1) postcode_end(4) [OF n]] .
  ultimately have "rx_ends POSTCODE_REGEX p' (take n v) = n # filter (\<lambda>m. m \<le> n) rest"
    using le by simp
  then show ?thesis by blast
qed

lemma separator_eq: "separator = [44, 32]"
  by (simp add: separator_def ascii_def)

lemma no_match_before_separator:
  assumes "\<not> rx_test POSTCODE_REGEX l" "\<not> wordBefore p" "l @ separator = u1 @ u2" "u2 \<noteq> []"
  shows "rx_ends POSTCODE_REGEX (prevOf p u1) (u2 @ J) = []"
proof (rule ccontr)
  assume "rx_ends POSTCODE_REGEX (prevOf p u1) (u2 @ J) \<noteq> []"
  then obtain m where m: "m \<in> set (rx_ends POSTCODE_REGEX (prevOf p u1) (u2 @ J))"
    by (meson last_in_set)
  have h: "isLetter (hd u2)" using postcode_start(3) [OF m] assms(4) by simp
  show False
  proof (cases "length l \<le> length u1")
    case True
    from assms(3) obtain us where
      "(l = u1 @ us \<and> us @ separator = u2) \<or> (l @ us = u1 \<and> separator = us @ u2)"
      unfolding append_eq_append_conv2 by blast
    then have "\<exists>us. separator = us @ u2"
    proof
      assume a: "l = u1 @ us \<and> us @ separator = u2"
      with True have "us = []" by simp
      with a show ?thesis by auto
    next
      assume "l @ us = u1 \<and> separator = us @ u2"
      then show ?thesis by blast
    qed
    then obtain us where "[44, 32] = us @ u2" unfolding separator_eq by blast
    then have "u2 = [44, 32] \<or> u2 = [32]"
      using assms(4) by (cases us) (auto simp: Cons_eq_append_conv)
    with h show False by (auto simp: class_defs)
  next
    case False
    from assms(3) obtain us where
      "(l = u1 @ us \<and> us @ separator = u2) \<or> (l @ us = u1 \<and> separator = us @ u2)"
      unfolding append_eq_append_conv2 by blast
    then have "l = u1 @ us \<and> us @ separator = u2"
    proof
      assume "l @ us = u1 \<and> separator = us @ u2"
      then have "length l \<le> length u1" by auto
      with False show ?thesis by simp
    qed simp
    then obtain w where w: "l = u1 @ w" "w \<noteq> []" "u2 = w @ separator"
      using False by auto
    have mw: "m \<le> length w"
    proof (rule ccontr)
      assume "\<not> m \<le> length w"
      then obtain d where "m - length w = Suc d" by (metis Suc_diff_Suc not_le_imp_less)
      then have "44 \<in> set (take m (w @ separator @ J))" by (simp add: separator_eq)
      then have "44 \<in> set (take m (u2 @ J))" using w by simp
      from postcode_chars [OF m this] show False using letter_or_digit_not_comma by blast
    qed
    have "\<not> wordAt (separator @ J)" by (simp add: separator_eq wordAt_def class_defs)
    then have "filter (\<lambda>n. n \<le> length w) (rx_ends POSTCODE_REGEX (prevOf p u1) (w @ separator @ J))
        = rx_ends POSTCODE_REGEX (prevOf p u1) w"
      using rx_ends_cut [OF POSTCODE_no_anchor(1)] by blast
    moreover have "m \<in> set (filter (\<lambda>n. n \<le> length w)
        (rx_ends POSTCODE_REGEX (prevOf p u1) (w @ separator @ J)))"
      using m mw w by simp
    ultimately have "m \<in> set (rx_ends POSTCODE_REGEX (prevOf p u1) w)" by simp
    moreover have "wordBefore (prevOf p u1) = wordBefore (prevOf None u1)"
      using assms(2) by (cases "u1 = []") (auto simp: prevOf_def wordBefore_def)
    ultimately have "m \<in> set (rx_ends POSTCODE_REGEX (prevOf None u1) w)"
      using rx_ends_prev [OF POSTCODE_no_anchor(2)] by metis
    then have "rx_ends POSTCODE_REGEX (prevOf None u1) w \<noteq> []" by auto
    then have "rx_test POSTCODE_REGEX l" unfolding rx_test_iff using w(1) by blast
    with assms(1) show False by simp
  qed
qed

lemma search_joined:
  assumes "\<forall>l \<in> set ls. \<not> rx_test POSTCODE_REGEX l"
    and "rx_ends POSTCODE_REGEX p0 v = n # rest" "\<not> wordBefore p"
  shows "\<exists>pre. join separator (ls @ [take n v]) = pre @ take n v
     \<and> (pre = [] \<or> (\<exists>pre'. pre = pre' @ separator))
     \<and> rx_search POSTCODE_REGEX p (join separator (ls @ [take n v])) q = Some (q + length pre, n)"
  using assms(1,3)
proof (induction ls arbitrary: p q)
  case Nil
  from postcode_alone [OF assms(2) Nil(2)] obtain rest' where
    "rx_ends POSTCODE_REGEX p (take n v) = n # rest'" by blast
  then have "rx_search POSTCODE_REGEX p (take n v) q = Some (q, n)" by (rule rx_search_here)
  then show ?case by simp
next
  case (Cons l ls)
  let ?J = "join separator (ls @ [take n v])"
  have j: "join separator ((l # ls) @ [take n v]) = (l @ separator) @ ?J"
    by (simp add: join_Cons)
  have nl: "\<not> rx_test POSTCODE_REGEX l" using Cons.prems by simp
  have "\<forall>u1 u2. l @ separator = u1 @ u2 \<and> u2 \<noteq> []
      \<longrightarrow> rx_ends POSTCODE_REGEX (prevOf p u1) (u2 @ ?J) = []"
    using no_match_before_separator [OF nl Cons.prems(2)] by blast
  from rx_search_skip [OF this, of q]
  have s: "rx_search POSTCODE_REGEX p ((l @ separator) @ ?J) q
      = rx_search POSTCODE_REGEX (prevOf p (l @ separator)) ?J (q + length (l @ separator))" .
  have nw: "\<not> wordBefore (prevOf p (l @ separator))"
    by (simp add: separator_eq prevOf_def wordBefore_def class_defs)
  have "\<forall>l \<in> set ls. \<not> rx_test POSTCODE_REGEX l" using Cons.prems by simp
  from Cons.IH [OF this nw, of "q + length (l @ separator)"]
  obtain pre where pre: "?J = pre @ take n v" "pre = [] \<or> (\<exists>pre'. pre = pre' @ separator)"
    "rx_search POSTCODE_REGEX (prevOf p (l @ separator)) ?J (q + length (l @ separator))
       = Some (q + length (l @ separator) + length pre, n)" by blast
  have 1: "join separator ((l # ls) @ [take n v]) = ((l @ separator) @ pre) @ take n v"
    using j pre(1) by simp
  have 2: "(l @ separator) @ pre = [] \<or> (\<exists>pre'. (l @ separator) @ pre = pre' @ separator)"
    using pre(2) by (metis append.assoc append_Nil2)
  have 3: "rx_search POSTCODE_REGEX p (join separator ((l # ls) @ [take n v])) q
      = Some (q + length ((l @ separator) @ pre), n)"
    unfolding j s pre(3) by simp
  from 1 2 3 show ?case by blast
qed

lemma set_join: "set (join sp xs) \<subseteq> set sp \<union> \<Union> (set ` set xs)"
  by (induction sp xs rule: join.induct) auto

lemma split_single: "sep \<notin> set s \<Longrightarrow> split sep s = [s]"
  by (induction s) auto

lemma dropWhile_hd: "s \<noteq> [] \<Longrightarrow> \<not> P (hd s) \<Longrightarrow> dropWhile P s = s"
  by (cases s) auto

lemma trim_id: "s \<noteq> [] \<Longrightarrow> \<not> isSpace (hd s) \<Longrightarrow> \<not> isSpace (last s) \<Longrightarrow> trim s = s"
  by (simp add: trim_def dropWhile_hd hd_rev)

lemma textLines_single:
  "s \<noteq> [] \<Longrightarrow> 10 \<notin> set s \<Longrightarrow> \<not> isSpace (hd s) \<Longrightarrow> \<not> isSpace (last s) \<Longrightarrow> textLines s = [s]"
  by (simp add: textLines_def split_single trim_id)

lemma hd_join: "xs \<noteq> [] \<Longrightarrow> hd xs \<noteq> [] \<Longrightarrow> hd (join sp xs) = hd (hd xs)"
  by (induction sp xs rule: join.induct) auto

lemma trailingRev_plain: "44 \<notin> set s \<Longrightarrow> trailingRev s = s"
  by (induction s rule: trailingRev.induct) auto

lemma trailingRev_cut: "44 \<notin> set a \<Longrightarrow> trailingRev (a @ 32 # 44 # r) = a"
proof (induction a)
  case Nil
  then show ?case by simp
next
  case (Cons x a)
  then show ?case by (cases a) auto
qed

lemma trailingComponent_last:
  assumes "44 \<notin> set pc" "pre = [] \<or> (\<exists>pre'. pre = pre' @ separator)"
  shows "trailingComponent (pre @ pc) = pc"
proof (cases "pre = []")
  case True
  then show ?thesis using assms(1) by (simp add: trailingComponent_def trailingRev_plain)
next
  case False
  with assms(2) obtain pre' where "pre = pre' @ separator" by blast
  then have "rev (pre @ pc) = rev pc @ 32 # 44 # rev pre'" by (simp add: separator_eq)
  then show ?thesis using assms(1) by (simp add: trailingComponent_def trailingRev_cut)
qed

lemma matchesFrom_iff:
  "(j, n) \<in> set (matchesFrom r p s k) \<longleftrightarrow>
     (\<exists>u v. s = u @ v \<and> j = k + length u \<and> n \<in> set (rx_ends r (prevOf p u) v))"
proof (induction s arbitrary: p k)
  case Nil
  then show ?case by auto
next
  case (Cons x xs)
  show ?case
  proof
    assume "(j, n) \<in> set (matchesFrom r p (x # xs) k)"
    then consider "j = k" "n \<in> set (rx_ends r p (x # xs))"
      | "(j, n) \<in> set (matchesFrom r (Some x) xs (Suc k))" by auto
    then show "\<exists>u v. x # xs = u @ v \<and> j = k + length u \<and> n \<in> set (rx_ends r (prevOf p u) v)"
    proof cases
      case 1
      then show ?thesis by (intro exI [of _ "[]"] exI [of _ "x # xs"]) simp
    next
      case 2
      then obtain u v where "xs = u @ v" "j = Suc k + length u"
        "n \<in> set (rx_ends r (prevOf (Some x) u) v)" unfolding Cons.IH by blast
      then show ?thesis by (intro exI [of _ "x # u"] exI [of _ v]) simp
    qed
  next
    assume "\<exists>u v. x # xs = u @ v \<and> j = k + length u \<and> n \<in> set (rx_ends r (prevOf p u) v)"
    then obtain u v where uv: "x # xs = u @ v" "j = k + length u"
      "n \<in> set (rx_ends r (prevOf p u) v)" by blast
    show "(j, n) \<in> set (matchesFrom r p (x # xs) k)"
    proof (cases u)
      case Nil
      with uv show ?thesis by auto
    next
      case (Cons y u')
      with uv have "xs = u' @ v" "j = Suc k + length u'"
        "n \<in> set (rx_ends r (prevOf (Some x) u') v)" by auto
      then have "(j, n) \<in> set (matchesFrom r (Some x) xs (Suc k))"
        unfolding Cons.IH by blast
      then show ?thesis by simp
    qed
  qed
qed

lemma allMatches_iff:
  "(j, n) \<in> set (allMatches r s) \<longleftrightarrow>
     (\<exists>u v. s = u @ v \<and> j = length u \<and> n \<in> set (rx_ends r (prevOf None u) v))"
  by (simp add: allMatches_def matchesFrom_iff)

lemma split_append_sep: "split sep (A @ sep # B) = split sep A @ split sep B"
proof (induction A)
  case Nil
  then show ?case by simp
next
  case (Cons x A)
  obtain l ls where "split sep A = l # ls" by (cases "split sep A") auto
  with Cons show ?case by simp
qed

lemma split_around:
  assumes "sep \<notin> set piece" "A1 = [] \<or> last A1 = sep" "B2 = [] \<or> hd B2 = sep"
  shows "\<exists>P1 P2. split sep (A1 @ piece @ B2) = P1 @ [piece] @ P2
     \<and> (\<forall>x \<in> set P1. \<exists>A B. A1 = A @ x @ B \<and> B \<noteq> [] \<and> hd B = sep \<and> (A = [] \<or> last A = sep))"
proof -
  have "\<exists>P2. split sep (piece @ B2) = [piece] @ P2"
  proof (cases B2)
    case Nil
    then show ?thesis using assms(1) by (simp add: split_single)
  next
    case (Cons y B2')
    with assms(3) have "piece @ B2 = piece @ sep # B2'" by simp
    then show ?thesis using assms(1) by (simp add: split_append_sep split_single)
  qed
  then obtain P2 where P2: "split sep (piece @ B2) = [piece] @ P2" by blast
  show ?thesis
  proof (cases "A1 = []")
    case True
    with P2 show ?thesis by (intro exI [of _ "[]"] exI [of _ P2]) simp
  next
    case False
    with assms(2) obtain A1' where A1: "A1 = A1' @ [sep]"
      by (metis append_butlast_last_id)
    have s: "split sep (A1 @ piece @ B2) = split sep A1' @ [piece] @ P2"
      using A1 P2 split_append_sep [of sep A1' "piece @ B2"] by simp
    have "\<exists>A B. A1 = A @ x @ B \<and> B \<noteq> [] \<and> hd B = sep \<and> (A = [] \<or> last A = sep)"
      if "x \<in> set (split sep A1')" for x
    proof -
      from split_piece [OF that] obtain A B where AB: "A1' = A @ x @ B" "A = [] \<or> last A = sep"
        "B = [] \<or> hd B = sep" by blast
      then have "A1 = A @ x @ (B @ [sep])" "B @ [sep] \<noteq> []" using A1 by simp_all
      moreover have "hd (B @ [sep]) = sep" using AB(3) by (cases B) auto
      ultimately show ?thesis using AB(2) by blast
    qed
    with s show ?thesis by blast
  qed
qed

lemma cut_at_last:
  "\<exists>A1 A2. A = A1 @ A2 \<and> sep \<notin> set A2 \<and> (A1 = [] \<or> last A1 = sep)"
proof (cases "sep \<in> set A")
  case True
  then obtain ys zs where "A = ys @ sep # zs" "sep \<notin> set zs" by (meson split_list_last)
  then have "A = (ys @ [sep]) @ zs" "last (ys @ [sep]) = sep" by simp_all
  with \<open>sep \<notin> set zs\<close> show ?thesis by blast
next
  case False
  then show ?thesis by (intro exI [of _ "[]"] exI [of _ A]) simp
qed

lemma cut_at_first:
  "\<exists>B1 B2. B = B1 @ B2 \<and> sep \<notin> set B1 \<and> (B2 = [] \<or> hd B2 = sep)"
proof (cases "sep \<in> set B")
  case True
  then obtain ys zs where "B = ys @ sep # zs" "sep \<notin> set ys" by (meson split_list_first)
  then show ?thesis by (intro exI [of _ ys] exI [of _ "sep # zs"]) simp
next
  case False
  then show ?thesis by (intro exI [of _ B] exI [of _ "[]"]) simp
qed

lemma trim_core:
  assumes "M \<noteq> []" "\<not> isSpace (hd M)" "\<not> isSpace (last M)"
  shows "\<exists>w1 a b w2. trim (A @ M @ B) = a @ M @ b \<and> A = w1 @ a \<and> B = b @ w2
     \<and> (\<forall>x \<in> set w1. isSpace x) \<and> (\<forall>x \<in> set w2. isSpace x)"
proof -
  have dw: "dropWhile isSpace (X @ M @ Y) = dropWhile isSpace X @ M @ Y" for X Y
  proof (cases "\<forall>x \<in> set X. isSpace x")
    case True
    then have "dropWhile isSpace X = []" by simp
    moreover have "dropWhile isSpace (M @ Y) = M @ Y"
      using assms by (simp add: dropWhile_hd)
    ultimately show ?thesis using True by (simp add: dropWhile_append2)
  next
    case False
    then obtain x where "x \<in> set X" "\<not> isSpace x" by blast
    then show ?thesis by (simp add: dropWhile_append1)
  qed
  let ?a = "dropWhile isSpace A"
  let ?b = "rev (dropWhile isSpace (rev B))"
  have rM: "rev M \<noteq> []" "\<not> isSpace (hd (rev M))" "\<not> isSpace (last (rev M))"
    using assms by (simp_all add: hd_rev last_rev)
  have dw': "dropWhile isSpace (X @ rev M @ Y) = dropWhile isSpace X @ rev M @ Y" for X Y
  proof (cases "\<forall>x \<in> set X. isSpace x")
    case True
    then have "dropWhile isSpace X = []" by simp
    moreover have "dropWhile isSpace (rev M @ Y) = rev M @ Y"
      using rM by (simp add: dropWhile_hd)
    ultimately show ?thesis using True by (simp add: dropWhile_append2)
  next
    case False
    then obtain x where "x \<in> set X" "\<not> isSpace x" by blast
    then show ?thesis by (simp add: dropWhile_append1)
  qed
  have "trim (A @ M @ B) = rev (dropWhile isSpace (rev (?a @ M @ B)))"
    by (simp add: trim_def dw)
  also have "rev (?a @ M @ B) = rev B @ rev M @ rev ?a" by simp
  also have "dropWhile isSpace (rev B @ rev M @ rev ?a) = dropWhile isSpace (rev B) @ rev M @ rev ?a"
    by (rule dw')
  finally have t: "trim (A @ M @ B) = ?a @ M @ ?b" by simp
  have A: "A = takeWhile isSpace A @ ?a" by simp
  have "rev B = takeWhile isSpace (rev B) @ dropWhile isSpace (rev B)" by simp
  then have B: "B = ?b @ rev (takeWhile isSpace (rev B))"
    by (metis rev_append rev_rev_ident)
  have "\<forall>x \<in> set (takeWhile isSpace A). isSpace x" by (meson set_takeWhileD)
  moreover have "\<forall>x \<in> set (rev (takeWhile isSpace (rev B))). isSpace x"
    by (metis set_rev set_takeWhileD)
  ultimately show ?thesis using t A B by blast
qed

lemma findPostcode_first:
  assumes "\<forall>l \<in> set L1. \<not> rx_test POSTCODE_REGEX l" "rx_test POSTCODE_REGEX l"
  shows "findPostcode (L1 @ l # L2) 0 = int (length L1)"
proof -
  let ?lines = "L1 @ l # L2"
  have "findPostcode ?lines 0 \<noteq> - 1"
    unfolding findPostcode_none using assms(2)
    by (auto intro!: exI [of _ "length L1"])
  with findPostcode_lower [of ?lines 0] have "0 \<le> findPostcode ?lines 0" by simp
  then obtain k where k: "findPostcode ?lines 0 = int k"
    using zero_le_imp_eq_int by blast
  from findPostcode_some [OF k] have 1: "rx_test POSTCODE_REGEX (?lines ! k)"
    and 2: "\<forall>j. 0 \<le> j \<and> j < k \<longrightarrow> \<not> rx_test POSTCODE_REGEX (?lines ! j)" by simp_all
  have "\<not> k < length L1"
  proof
    assume "k < length L1"
    then have "?lines ! k \<in> set L1" by (simp add: nth_append)
    with assms(1) 1 show False by blast
  qed
  moreover have "\<not> length L1 < k"
  proof
    assume "length L1 < k"
    with 2 have "\<not> rx_test POSTCODE_REGEX (?lines ! length L1)" by blast
    with assms(2) show False by simp
  qed
  ultimately show ?thesis using k by simp
qed

lemma join_last_shape:
  "\<exists>pre. join sp (ls @ [pc]) = pre @ pc \<and> (pre = [] \<or> (\<exists>pre'. pre = pre' @ sp))"
proof (cases "ls = []")
  case True
  then show ?thesis by simp
next
  case False
  then have "join sp (ls @ [pc]) = (join sp ls @ sp) @ pc" by (simp add: join_append)
  then show ?thesis by blast
qed

lemma not_word_before_gap:
  assumes "A1 = [] \<or> last A1 = 10" "\<forall>x \<in> set w1. isSpace x"
  shows "\<not> wordBefore (prevOf None (A1 @ w1))"
proof (cases "w1 = []")
  case True
  then show ?thesis using assms(1) by (cases "A1 = []") (auto simp: prevOf_def wordBefore_def class_defs)
next
  case False
  then have "isSpace (last w1)" using assms(2) by simp
  then show ?thesis using False by (simp add: prevOf_def wordBefore_def space_not_word)
qed

lemma not_word_at_gap:
  assumes "B2 = [] \<or> hd B2 = 10" "\<forall>x \<in> set w2. isSpace x"
  shows "\<not> wordAt (w2 @ B2)"
proof (cases w2)
  case Nil
  then show ?thesis using assms(1) by (cases B2) (auto simp: wordAt_def class_defs)
next
  case (Cons x xs)
  then have "isSpace x" using assms(2) by simp
  then show ?thesis using Cons by (simp add: wordAt_def space_not_word)
qed

section \<open>The result of the extraction\<close>

lemma rx_test_exec: "rx_test r s \<Longrightarrow> \<exists>j n. rx_exec r s = Some (j, n)"
  by (auto simp: rx_test_def)

lemma extractAddress_located:
  assumes "findPostcode (textLines text) 0 = int k"
  shows "\<exists>j n i' ls ltc'. rx_exec POSTCODE_REGEX (textLines text ! k) = Some (j, n)
    \<and> walkBack U (textLines text) (int k - 1) [] (min 8 (int k)) = Inr (i', ls, ltc')
    \<and> extractAddress U text = Inr (join separator (ls @ [take n (drop j (textLines text ! k))]))"
proof -
  let ?lines = "textLines text"
  from findPostcode_some [OF assms] have k: "k < length ?lines"
    and t: "rx_test POSTCODE_REGEX (?lines ! k)" by simp_all
  from rx_test_exec [OF t] obtain j n where e: "rx_exec POSTCODE_REGEX (?lines ! k) = Some (j, n)"
    by blast
  have "\<exists>i' ls ltc'. walkBack U ?lines (int k - 1) [] (min 8 (int k)) = Inr (i', ls, ltc')"
    using walkBack_result [of "int k - 1" ?lines "min 8 (int k)" "[]" U] k by auto
  then obtain i' ls ltc' where w: "walkBack U ?lines (int k - 1) [] (min 8 (int k)) = Inr (i', ls, ltc')"
    by blast
  have "extractAddress U text = Inr (join separator (ls @ [take n (drop j (?lines ! k))]))"
    using assms k e w by (simp add: extractAddress_def Let_def js_nth_def str_match_def)
  with e w show ?thesis by blast
qed

lemma extractAddress_not_located:
  "findPostcode (textLines text) 0 = - 1 \<Longrightarrow> extractAddress U text = Inr text"
  by (simp add: extractAddress_def)

lemma textLines_scenarioB:
  "textLines scenarioB = [ascii ''SHIP TO'', ascii ''3'' @ [163], ascii ''JOHN SMITH'',
     ascii ''42 HIGH STREET'', ascii ''BELFAST'', ascii ''BT1 1AA'']"
  by (simp add: scenarioB_def textLines_def ascii_def trim_def isSpace_def)

lemma find_scenarioB: "findPostcode (textLines scenarioB) 0 = 5"
  unfolding textLines_scenarioB
  by (simp add: findPostcode.simps eval_defs regex_defs class_defs)

lemma noise_ship_to: "isPackageMetadata U (ascii ''SHIP TO'') = Inr True"
  by (simp add: isPackageMetadata_def eval_defs regex_defs class_defs)

lemma noise_3pound: "isPackageMetadata U (ascii ''3'' @ [163]) = Inr True"
  by (simp add: isPackageMetadata_def eval_defs regex_defs class_defs)

lemma accepted_john: "accepted U (ascii ''JOHN SMITH'')"
  by (simp add: accepted_def isPackageMetadata_def isValidAddressLine_def eval_defs regex_defs class_defs)

lemma accepted_street: "accepted U (ascii ''42 HIGH STREET'')"
  by (simp add: accepted_def isPackageMetadata_def isValidAddressLine_def eval_defs regex_defs class_defs)

lemma accepted_belfast: "accepted U (ascii ''BELFAST'')"
  by (simp add: accepted_def isPackageMetadata_def isValidAddressLine_def eval_defs regex_defs class_defs)

lemma walk_scenarioB:
  "walkBack U (textLines scenarioB) 4 [] 5 = Inr (- 1, [ascii ''JOHN SMITH'', ascii ''42 HIGH STREET'', ascii ''BELFAST''], 0)"
  unfolding textLines_scenarioB
  using noise_ship_to [of U] noise_3pound [of U] accepted_john [of U] accepted_street [of U] accepted_belfast [of U]
  by (simp add: walkBack.simps js_nth_def accepted_def)

lemma forwardLoop_bound:
  assumes "0 \<le> i" "postcodeIndex \<le> int (length lines)"
  shows "\<exists>ls. forwardLoop lines postcodeIndex i acc = Inr ls
     \<and> length ls \<le> length acc + nat (postcodeIndex - i)"
  using assms
proof (induction "nat (postcodeIndex - i)" arbitrary: i acc)
  case 0
  then show ?case by (subst forwardLoop.simps) simp
next
  case (Suc d)
  then have lt: "i < postcodeIndex" by simp
  have nth: "js_nth lines i = Some (lines ! nat i)"
    using lt Suc.prems by (simp add: js_nth_def)
  have d: "d = nat (postcodeIndex - (i + 1))" using Suc.hyps(2) by simp
  have i1: "0 \<le> i + 1" using Suc.prems by simp
  note IH = Suc.hyps(1) [OF d i1 Suc.prems(2)]
  from IH [of acc] obtain ls1 where 1: "forwardLoop lines postcodeIndex (i + 1) acc = Inr ls1"
    "length ls1 \<le> length acc + nat (postcodeIndex - (i + 1))" by blast
  from IH [of "acc @ [trim (lines ! nat i)]"] obtain ls2 where
    2: "forwardLoop lines postcodeIndex (i + 1) (acc @ [trim (lines ! nat i)]) = Inr ls2"
    "length ls2 \<le> length (acc @ [trim (lines ! nat i)]) + nat (postcodeIndex - (i + 1))" by blast
  have s: "length acc + nat (postcodeIndex - (i + 1)) \<le> length acc + nat (postcodeIndex - i)"
    "length (acc @ [trim (lines ! nat i)]) + nat (postcodeIndex - (i + 1))
       \<le> length acc + nat (postcodeIndex - i)"
    using lt by simp_all
  show ?case
    using lt nth 1 2 s by (subst forwardLoop.simps) (simp add: Let_def)
qed

lemma extractAddress_simple_located:
  assumes "findPostcode (textLines text) 0 = int k"
  shows "\<exists>addressLines postcode.
      forwardLoop (textLines text) (int k) (max 0 (int k - 4)) [] = Inr addressLines
    \<and> str_match POSTCODE_REGEX (textLines text ! k) = Some postcode
    \<and> extractAddress_simple text = Inr (join separator (addressLines @ [postcode]))
    \<and> length addressLines \<le> 4"
proof -
  let ?lines = "textLines text"
  from findPostcode_some [OF assms] have k: "k < length ?lines"
    and t: "rx_test POSTCODE_REGEX (?lines ! k)" by simp_all
  from rx_test_exec [OF t] obtain j n where e: "rx_exec POSTCODE_REGEX (?lines ! k) = Some (j, n)"
    by blast
  have "0 \<le> max 0 (int k - 4)" "int k \<le> int (length ?lines)" using k by simp_all
  from forwardLoop_bound [OF this, of "[]"] obtain ls where
    f: "forwardLoop ?lines (int k) (max 0 (int k - 4)) [] = Inr ls"
    and "length ls \<le> length ([] :: jsstring list) + nat (int k - max 0 (int k - 4))" by blast
  then have l: "length ls \<le> 4" by simp
  have m: "str_match POSTCODE_REGEX (?lines ! k) = Some (take n (drop j (?lines ! k)))"
    using e by (simp add: str_match_def)
  have "extractAddress_simple text = Inr (join separator (ls @ [take n (drop j (?lines ! k))]))"
    using assms k m f by (simp add: extractAddress_simple_def Let_def js_nth_def)
  with f m l show ?thesis by blast
qed

text \<open>
  C4: on the input of scenario B the result is exactly
  \<open>"JOHN SMITH, 42 HIGH STREET, BELFAST, BT1 1AA"\<close>: the noise classifier rejects the lines
  \<open>"SHIP TO"\<close> and \<open>"3\<pounds>"\<close>, and the three other lines above the postcode are
  accepted and kept in their order.
\<close>

theorem scenario_B:
  "extractAddress U scenarioB = Inr (ascii ''JOHN SMITH, 42 HIGH STREET, BELFAST, BT1 1AA'')
   \<and> isPackageMetadata U (ascii ''SHIP TO'') = Inr True
   \<and> isPackageMetadata U (ascii ''3'' @ [163]) = Inr True
   \<and> accepted U (ascii ''JOHN SMITH'') \<and> accepted U (ascii ''42 HIGH STREET'')
   \<and> accepted U (ascii ''BELFAST'')"
proof -
  have m: "str_match POSTCODE_REGEX (ascii ''BT1 1AA'') = Some (ascii ''BT1 1AA'')"
    by (simp add: eval_defs regex_defs class_defs)
  have "extractAddress U scenarioB = Inr (ascii ''JOHN SMITH, 42 HIGH STREET, BELFAST, BT1 1AA'')"
    using find_scenarioB walk_scenarioB [of U] m
    by (simp add: extractAddress_def Let_def js_nth_def textLines_scenarioB separator_def ascii_def)
  then show ?thesis
    using noise_ship_to noise_3pound accepted_john accepted_street accepted_belfast by blast
qed

theorem scenario_B_witness:
  "extractAddress id scenarioB = Inr (ascii ''JOHN SMITH, 42 HIGH STREET, BELFAST, BT1 1AA'')"
  using scenario_B [of id] by simp

text \<open>The second version, which has no classifier, keeps the line \<open>"3\<pounds>"\<close> on the same input.\<close>

lemma scenario_B_simple:
  "extractAddress_simple scenarioB
     = Inr (ascii ''3'' @ [163] @ ascii '', JOHN SMITH, 42 HIGH STREET, BELFAST, BT1 1AA'')"
proof -
  have m: "str_match POSTCODE_REGEX (ascii ''BT1 1AA'') = Some (ascii ''BT1 1AA'')"
    by (simp add: eval_defs regex_defs class_defs)
  have f: "forwardLoop (textLines scenarioB) 5 1 []
      = Inr [ascii ''3'' @ [163], ascii ''JOHN SMITH'', ascii ''42 HIGH STREET'', ascii ''BELFAST'']"
    unfolding textLines_scenarioB
    by (simp add: forwardLoop.simps eval_defs class_defs TRACKING_RUN_REGEX_def DIGIT_RUN_REGEX_def)
  show ?thesis
    using find_scenarioB f m
    by (simp add: extractAddress_simple_def Let_def js_nth_def textLines_scenarioB separator_def ascii_def)
qed

lemma subseq_drop_self: "subseq (drop n xs) xs"
  using subseq_drop_many [of "drop n xs" "drop n xs" "take n xs"] by simp

lemma textLines_fiveLines:
  "textLines fiveLines = [ascii ''FLAT 2'', ascii ''JOHN SMITH'', ascii ''42 HIGH STREET'',
     ascii ''EAST END'', ascii ''LONDON'', ascii ''E1 6AN'']"
  by (simp add: fiveLines_def textLines_def ascii_def trim_def isSpace_def)

lemma find_fiveLines: "findPostcode (textLines fiveLines) 0 = int 5"
  unfolding textLines_fiveLines
  by (simp add: findPostcode.simps eval_defs regex_defs class_defs)

text \<open>
  C3: when a postcode is located, the result is the comma-joined list of the address
  lines that the backward loop returns, followed by the postcode, and that list has at
  most four lines, however many lines precede the postcode line. The same holds of the
  second version of the component and its forward loop.
\<close>

theorem at_most_four_address_lines:
  assumes "findPostcode (textLines text) 0 = int k"
  shows "(\<exists>i' addressLines ltc' postcode.
      walkBack U (textLines text) (int k - 1) [] (min 8 (int k)) = Inr (i', addressLines, ltc')
    \<and> str_match POSTCODE_REGEX (textLines text ! k) = Some postcode
    \<and> extractAddress U text = Inr (join separator (addressLines @ [postcode]))
    \<and> length addressLines \<le> 4)
   \<and> (\<exists>addressLines postcode.
      forwardLoop (textLines text) (int k) (max 0 (int k - 4)) [] = Inr addressLines
    \<and> str_match POSTCODE_REGEX (textLines text ! k) = Some postcode
    \<and> extractAddress_simple text = Inr (join separator (addressLines @ [postcode]))
    \<and> length addressLines \<le> 4)"
proof -
  let ?lines = "textLines text"
  from extractAddress_located [OF assms, of U]
  obtain j n i' ls ltc' where e: "rx_exec POSTCODE_REGEX (?lines ! k) = Some (j, n)"
    and w: "walkBack U ?lines (int k - 1) [] (min 8 (int k)) = Inr (i', ls, ltc')"
    and x: "extractAddress U text = Inr (join separator (ls @ [take n (drop j (?lines ! k))]))"
    by blast
  from findPostcode_some [OF assms] have k: "k < length ?lines" by simp
  have "length ls \<le> 4"
    using walkBack_result [of "int k - 1" ?lines "min 8 (int k)" "[]" U] k w by auto
  moreover have "str_match POSTCODE_REGEX (?lines ! k) = Some (take n (drop j (?lines ! k)))"
    using e by (simp add: str_match_def)
  ultimately have "\<exists>i' addressLines ltc' postcode.
      walkBack U ?lines (int k - 1) [] (min 8 (int k)) = Inr (i', addressLines, ltc')
    \<and> str_match POSTCODE_REGEX (?lines ! k) = Some postcode
    \<and> extractAddress U text = Inr (join separator (addressLines @ [postcode]))
    \<and> length addressLines \<le> 4"
    using w x by blast
  then show ?thesis using extractAddress_simple_located [OF assms] by blast
qed

theorem at_most_four_address_lines_witness:
  "findPostcode (textLines fiveLines) 0 = int 5
   \<and> (\<exists>i' addressLines ltc' postcode.
      walkBack id (textLines fiveLines) (int 5 - 1) [] (min 8 (int 5)) = Inr (i', addressLines, ltc')
    \<and> str_match POSTCODE_REGEX (textLines fiveLines ! 5) = Some postcode
    \<and> extractAddress id fiveLines = Inr (join separator (addressLines @ [postcode]))
    \<and> length addressLines \<le> 4)
   \<and> (\<exists>addressLines postcode.
      forwardLoop (textLines fiveLines) (int 5) (max 0 (int 5 - 4)) [] = Inr addressLines
    \<and> str_match POSTCODE_REGEX (textLines fiveLines ! 5) = Some postcode
    \<and> extractAddress_simple fiveLines = Inr (join separator (addressLines @ [postcode]))
    \<and> length addressLines \<le> 4)"
  using find_fiveLines at_most_four_address_lines [OF find_fiveLines, of id] by blast

text \<open>
  C5: for every list of lines and located postcode index \<open>k\<close>, the loop ends in a state
  \<open>(i', addressLines, linesToCheck')\<close> in which the inspected lines are those of the
  indices \<open>i' + 1\<close> to \<open>k - 1\<close>: at most eight, each one counted by \<open>linesToCheck\<close>
  whether accepted or not. The lines kept are the accepted ones among the inspected, all
  from the eight lines before the postcode line, and the loop has ended because the start
  of the list is reached, or four lines are accepted, or the budget is used; when four
  lines are accepted, the last inspected line is the fourth.
\<close>

theorem inspection_budget:
  assumes "findPostcode lines 0 = int k"
  shows "\<exists>i' addressLines ltc'.
      walkBack U lines (int k - 1) [] (min 8 (int k)) = Inr (i', addressLines, ltc')
    \<and> - 1 \<le> i' \<and> i' \<le> int k - 1 \<and> int k - 1 - i' \<le> 8
    \<and> ltc' = min 8 (int k) - (int k - 1 - i')
    \<and> addressLines = filter (accepted U) (drop (nat (i' + 1)) (take k lines))
    \<and> subseq addressLines (drop (k - 8) (take k lines))
    \<and> length addressLines \<le> 4
    \<and> (i' < 0 \<or> length addressLines = 4 \<or> ltc' = 0)
    \<and> (length addressLines = 4 \<longrightarrow> accepted U (lines ! nat (i' + 1)))"
proof -
  from findPostcode_some [OF assms] have k: "k < length lines" by simp
  have pre: "- 1 \<le> int k - 1" "int k - 1 < int (length lines)" "0 \<le> min 8 (int k)"
    "min 8 (int k) \<le> int k - 1 + 1" "length ([] :: jsstring list) \<le> 4"
    using k by simp_all
  from walkBack_result [OF pre, of U]
  obtain i' ls ltc' where w: "walkBack U lines (int k - 1) [] (min 8 (int k)) = Inr (i', ls, ltc')"
    and r: "- 1 \<le> i'" "int k - 1 - i' = min 8 (int k) - ltc'" "0 \<le> ltc'"
      "i' < 0 \<or> 4 \<le> length ls \<or> ltc' \<le> 0" "length ls \<le> 4"
    by blast
  from walkBack_inspected [OF pre, of U] w
  have s: "i' \<le> int k - 1"
    "ls = filter (accepted U) (drop (nat (i' + 1)) (take (nat (int k - 1 + 1)) lines)) @ []"
    "length ([] :: jsstring list) < 4 \<and> length ls = 4 \<longrightarrow> i' < int k - 1 \<and> accepted U (lines ! nat (i' + 1))"
    by auto
  have f: "ls = filter (accepted U) (drop (nat (i' + 1)) (take k lines))"
    using s(2) by simp
  have b: "int k - 1 - i' \<le> 8" using r by simp
  have d: "drop (nat (i' + 1)) (take k lines) = drop (nat (i' + 1) - (k - 8)) (drop (k - 8) (take k lines))"
    using b r(1) by simp
  have "subseq ls (drop (nat (i' + 1)) (take k lines))"
    unfolding f by simp
  then have sub: "subseq ls (drop (k - 8) (take k lines))"
    unfolding d using subseq_drop_self subseq_order.trans by blast
  show ?thesis
    using w r s(1) s(3) f sub b by (intro exI conjI) auto
qed

theorem inspection_budget_witness:
  "findPostcode (textLines fiveLines) 0 = int 5
   \<and> (\<exists>i' addressLines ltc'.
      walkBack id (textLines fiveLines) (int 5 - 1) [] (min 8 (int 5)) = Inr (i', addressLines, ltc')
    \<and> - 1 \<le> i' \<and> i' \<le> int 5 - 1 \<and> int 5 - 1 - i' \<le> 8
    \<and> ltc' = min 8 (int 5) - (int 5 - 1 - i')
    \<and> addressLines = filter (accepted id) (drop (nat (i' + 1)) (take 5 (textLines fiveLines)))
    \<and> subseq addressLines (drop (5 - 8) (take 5 (textLines fiveLines)))
    \<and> length addressLines \<le> 4
    \<and> (i' < 0 \<or> length addressLines = 4 \<or> ltc' = 0)
    \<and> (length addressLines = 4 \<longrightarrow> accepted id (textLines fiveLines ! nat (i' + 1))))"
  using find_fiveLines inspection_budget [OF find_fiveLines, of id] by blast

text \<open>
  C6: when a postcode is located, the result is the comma-joined list of the address
  lines, followed by the postcode, where the address lines are exactly the accepted lines
  among the inspected ones (those of the indices \<open>i' + 1\<close> to \<open>k - 1\<close>, when the backward
  walk ends at \<open>i'\<close>), in the order they have in the input: the last four accepted lines
  of the eight lines before the postcode line. The walk ends only at the start of the
  list, at the fourth accepted line or after eight lines, so every accepted line it passes
  is kept, and the list is a subsequence of the lines that precede the postcode line.
\<close>

theorem address_lines_keep_order:
  assumes "findPostcode (textLines text) 0 = int k"
  shows "\<exists>i' addressLines ltc' postcode.
      walkBack U (textLines text) (int k - 1) [] (min 8 (int k)) = Inr (i', addressLines, ltc')
    \<and> str_match POSTCODE_REGEX (textLines text ! k) = Some postcode
    \<and> extractAddress U text = Inr (join separator (addressLines @ [postcode]))
    \<and> addressLines = keptOf U (drop (k - 8) (take k (textLines text))) 4
    \<and> - 1 \<le> i' \<and> i' \<le> int k - 1
    \<and> addressLines = filter (accepted U) (drop (nat (i' + 1)) (take k (textLines text)))
    \<and> (i' < 0 \<or> length addressLines = 4 \<or> int k - 1 - i' = 8)
    \<and> subseq addressLines (take k (textLines text))"
proof -
  let ?lines = "textLines text"
  from extractAddress_located [OF assms, of U]
  obtain j n i' ls ltc' where e: "rx_exec POSTCODE_REGEX (?lines ! k) = Some (j, n)"
    and w: "walkBack U ?lines (int k - 1) [] (min 8 (int k)) = Inr (i', ls, ltc')"
    and x: "extractAddress U text = Inr (join separator (ls @ [take n (drop j (?lines ! k))]))"
    by blast
  have m: "str_match POSTCODE_REGEX (?lines ! k) = Some (take n (drop j (?lines ! k)))"
    using e by (simp add: str_match_def)
  from findPostcode_some [OF assms] have k: "k < length ?lines" by simp
  have pre: "- 1 \<le> int k - 1" "int k - 1 < int (length ?lines)" "0 \<le> min 8 (int k)"
    "min 8 (int k) \<le> int k - 1 + 1" "length ([] :: jsstring list) \<le> 4"
    using k by simp_all
  have win: "nat (int k - 1 + 1 - min 8 (int k)) = k - 8" by simp
  have tk: "nat (int k - 1 + 1) = k" by simp
  from walkBack_result [OF pre, of U] w
  have r: "ls = keptOf U (drop (nat (int k - 1 + 1 - min 8 (int k))) (take (nat (int k - 1 + 1)) ?lines))
        (4 - length ([] :: jsstring list)) @ []"
    "- 1 \<le> i'" "int k - 1 - i' = min 8 (int k) - ltc'" "0 \<le> ltc'"
    "i' < 0 \<or> 4 \<le> length ls \<or> ltc' \<le> 0" "length ls \<le> 4"
    by auto
  have closed: "ls = keptOf U (drop (k - 8) (take k ?lines)) 4"
    using r(1) unfolding win tk by simp
  from walkBack_inspected [OF pre, of U] w
  have s: "i' \<le> int k - 1"
    "ls = filter (accepted U) (drop (nat (i' + 1)) (take (nat (int k - 1 + 1)) ?lines)) @ []"
    by auto
  have f: "ls = filter (accepted U) (drop (nat (i' + 1)) (take k ?lines))"
    using s(2) unfolding tk by simp
  have stop: "i' < 0 \<or> length ls = 4 \<or> int k - 1 - i' = 8"
    using r(2-6) by auto
  have "subseq ls (drop (nat (i' + 1)) (take k ?lines))" unfolding f by simp
  then have sub: "subseq ls (take k ?lines)"
    using subseq_drop_self subseq_order.trans by blast
  from w m x closed r(2) s(1) f stop sub show ?thesis by blast
qed

lemma accepted_fiveLines:
  "accepted id (ascii ''JOHN SMITH'')" "accepted id (ascii ''42 HIGH STREET'')"
  "accepted id (ascii ''EAST END'')" "accepted id (ascii ''LONDON'')" "accepted id (ascii ''FLAT 2'')"
  by (simp_all add: accepted_def isPackageMetadata_def isValidAddressLine_def eval_defs regex_defs class_defs)

theorem address_lines_keep_order_witness:
  "findPostcode (textLines fiveLines) 0 = int 5
   \<and> (\<exists>i' addressLines ltc' postcode.
      walkBack id (textLines fiveLines) (int 5 - 1) [] (min 8 (int 5)) = Inr (i', addressLines, ltc')
    \<and> str_match POSTCODE_REGEX (textLines fiveLines ! 5) = Some postcode
    \<and> extractAddress id fiveLines = Inr (join separator (addressLines @ [postcode]))
    \<and> addressLines = keptOf id (drop (5 - 8) (take 5 (textLines fiveLines))) 4
    \<and> addressLines = [ascii ''JOHN SMITH'', ascii ''42 HIGH STREET'', ascii ''EAST END'', ascii ''LONDON'']
    \<and> - 1 \<le> i' \<and> i' \<le> int 5 - 1
    \<and> addressLines = filter (accepted id) (drop (nat (i' + 1)) (take 5 (textLines fiveLines)))
    \<and> (i' < 0 \<or> length addressLines = 4 \<or> int 5 - 1 - i' = 8)
    \<and> subseq addressLines (take 5 (textLines fiveLines)))"
proof -
  have v: "keptOf id (drop (5 - 8) (take 5 (textLines fiveLines))) 4
      = [ascii ''JOHN SMITH'', ascii ''42 HIGH STREET'', ascii ''EAST END'', ascii ''LONDON'']"
    unfolding textLines_fiveLines using accepted_fiveLines by (simp add: keptOf_def)
  from address_lines_keep_order [OF find_fiveLines, of id]
  obtain i' ls ltc' pc where
    r: "walkBack id (textLines fiveLines) (int 5 - 1) [] (min 8 (int 5)) = Inr (i', ls, ltc')"
    "str_match POSTCODE_REGEX (textLines fiveLines ! 5) = Some pc"
    "extractAddress id fiveLines = Inr (join separator (ls @ [pc]))"
    "ls = keptOf id (drop (5 - 8) (take 5 (textLines fiveLines))) 4"
    "- 1 \<le> i'" "i' \<le> int 5 - 1"
    "ls = filter (accepted id) (drop (nat (i' + 1)) (take 5 (textLines fiveLines)))"
    "i' < 0 \<or> length ls = 4 \<or> int 5 - 1 - i' = 8"
    "subseq ls (take 5 (textLines fiveLines))"
    by blast
  have "ls = [ascii ''JOHN SMITH'', ascii ''42 HIGH STREET'', ascii ''EAST END'', ascii ''LONDON'']"
    using r(4) v by simp
  with r find_fiveLines show ?thesis by blast
qed

text \<open>
  C10: when the locator selects the index \<open>k\<close>, the line passes the test, the second
  match of the pattern against that line is not \<open>null\<close>, and the postcode appended to
  the result is the matched part of the line: the fallback to the whole line is never taken.
\<close>

theorem postcode_is_matched_substring:
  assumes "findPostcode (textLines text) 0 = int k"
  shows "\<exists>j n addressLines.
      rx_test POSTCODE_REGEX (textLines text ! k)
    \<and> rx_exec POSTCODE_REGEX (textLines text ! k) = Some (j, n)
    \<and> str_match POSTCODE_REGEX (textLines text ! k) = Some (take n (drop j (textLines text ! k)))
    \<and> extractAddress U text
         = Inr (join separator (addressLines @ [take n (drop j (textLines text ! k))]))"
proof -
  let ?lines = "textLines text"
  from extractAddress_located [OF assms, of U]
  obtain j n i' ls ltc' where e: "rx_exec POSTCODE_REGEX (?lines ! k) = Some (j, n)"
    and x: "extractAddress U text = Inr (join separator (ls @ [take n (drop j (?lines ! k))]))"
    by blast
  from findPostcode_some [OF assms] have t: "rx_test POSTCODE_REGEX (?lines ! k)" by simp
  have "str_match POSTCODE_REGEX (?lines ! k) = Some (take n (drop j (?lines ! k)))"
    using e by (simp add: str_match_def)
  with e x t show ?thesis by blast
qed

theorem postcode_is_matched_substring_witness:
  "findPostcode (textLines fiveLines) 0 = int 5
   \<and> (\<exists>j n addressLines.
      rx_test POSTCODE_REGEX (textLines fiveLines ! 5)
    \<and> rx_exec POSTCODE_REGEX (textLines fiveLines ! 5) = Some (j, n)
    \<and> str_match POSTCODE_REGEX (textLines fiveLines ! 5) = Some (take n (drop j (textLines fiveLines ! 5)))
    \<and> extractAddress id fiveLines
         = Inr (join separator (addressLines @ [take n (drop j (textLines fiveLines ! 5))])))"
  using find_fiveLines postcode_is_matched_substring [OF find_fiveLines, of id] by blast

section \<open>Inputs without a postcode, and with one\<close>

text \<open>The pattern without its word boundaries matches wherever the pattern of the program does.\<close>

lemma regex_within_glossary:
  assumes "n \<in> set (rx_ends POSTCODE_REGEX p s)"
  shows "n \<in> set (rx_ends GLOSSARY_PATTERN p s)"
proof -
  have "POSTCODE_REGEX = WordB # (GLOSSARY_PATTERN @ [WordB])"
    by (simp add: POSTCODE_REGEX_def GLOSSARY_PATTERN_def)
  with assms have "n \<in> set (rx_ends (WordB # (GLOSSARY_PATTERN @ [WordB])) p s)"
    by simp
  then have "n \<in> set (rx_ends (GLOSSARY_PATTERN @ [WordB]) p s)"
    by (simp split: if_splits)
  then obtain n1 n2 where "n = n1 + n2" "n1 \<in> set (rx_ends GLOSSARY_PATTERN p s)"
    "n2 \<in> set (rx_ends [WordB] (prevOf p (take n1 s)) (drop n1 s))"
    unfolding rx_ends_append by blast
  then show ?thesis by (auto split: if_splits)
qed

lemma glossary_matches_where_regex_does:
  "rx_test POSTCODE_REGEX s \<Longrightarrow> rx_test GLOSSARY_PATTERN s"
  unfolding rx_test_iff using regex_within_glossary by (metis empty_iff empty_set last_in_set)

text \<open>
  C1: when the postcode pattern matches nowhere in the input, no line passes the
  postcode test and the result is the input, unchanged, in both versions of the component.
\<close>

theorem no_postcode_returns_input:
  assumes "\<not> rx_test POSTCODE_REGEX text"
  shows "findPostcode (textLines text) 0 = - 1 \<and> extractAddress U text = Inr text
    \<and> extractAddress_simple text = Inr text"
proof -
  have "\<not> rx_test POSTCODE_REGEX l" if "l \<in> set (textLines text)" for l
  proof
    assume t: "rx_test POSTCODE_REGEX l"
    from line_in_text(1) [OF that] obtain A B where
      "text = A @ l @ B" "\<not> wordBefore (prevOf None A)" "\<not> wordAt B" by blast
    with test_embeds [OF POSTCODE_no_anchor _ _ t, of A B] assms show False by simp
  qed
  then have "findPostcode (textLines text) 0 = - 1"
    unfolding findPostcode_none by simp
  then show ?thesis by (simp add: extractAddress_def extractAddress_simple_def)
qed

theorem no_postcode_returns_input_witness:
  "\<not> rx_test POSTCODE_REGEX noPostcode
   \<and> findPostcode (textLines noPostcode) 0 = - 1 \<and> extractAddress id noPostcode = Inr noPostcode
   \<and> extractAddress_simple noPostcode = Inr noPostcode"
proof -
  have h: "\<not> rx_test POSTCODE_REGEX noPostcode"
    by (simp add: noPostcode_def eval_defs regex_defs class_defs)
  from no_postcode_returns_input [OF h, of id] h show ?thesis by blast
qed

text \<open>
  C2, as stated, fails: the text \<open>"E1\n6AN\nLONDON"\<close> has exactly one match of the
  postcode pattern, \<open>"E1\n6AN"\<close>, since \<open>\s*\<close> matches the line feed; no line has a
  match, so the result is the input, whose trailing component is not the match.
\<close>

theorem unique_postcode_counterexample:
  "allMatches POSTCODE_REGEX brokenPostcode = [(0, 6)]
   \<and> allMatches GLOSSARY_PATTERN brokenPostcode = [(0, 6)]
   \<and> take 6 (drop 0 brokenPostcode) = ascii ''E1'' @ [10] @ ascii ''6AN''
   \<and> extractAddress id brokenPostcode = Inr brokenPostcode
   \<and> trailingComponent brokenPostcode = brokenPostcode
   \<and> trailingComponent brokenPostcode \<noteq> take 6 (drop 0 brokenPostcode)"
proof -
  have 1: "allMatches POSTCODE_REGEX brokenPostcode = [(0, 6)]"
    by (simp add: brokenPostcode_def allMatches_def eval_defs regex_defs class_defs)
  have 2: "allMatches GLOSSARY_PATTERN brokenPostcode = [(0, 6)]"
    by (simp add: brokenPostcode_def allMatches_def GLOSSARY_PATTERN_def eval_defs class_defs)
  have 3: "take 6 (drop 0 brokenPostcode) = ascii ''E1'' @ [10] @ ascii ''6AN''"
    by (simp add: brokenPostcode_def ascii_def)
  have l: "textLines brokenPostcode = [ascii ''E1'', ascii ''6AN'', ascii ''LONDON'']"
    by (simp add: brokenPostcode_def textLines_def ascii_def trim_def isSpace_def)
  have f: "findPostcode (textLines brokenPostcode) 0 = - 1"
    unfolding l by (simp add: findPostcode.simps eval_defs regex_defs class_defs)
  then have 4: "extractAddress id brokenPostcode = Inr brokenPostcode"
    by (simp add: extractAddress_def)
  have 5: "trailingComponent brokenPostcode = brokenPostcode"
    by (simp add: brokenPostcode_def trailingComponent_def ascii_def)
  have 6: "trailingComponent brokenPostcode \<noteq> take 6 (drop 0 brokenPostcode)"
    unfolding 5 3 by (simp add: brokenPostcode_def ascii_def)
  from 1 2 3 4 5 6 show ?thesis by blast
qed

text \<open>
  C2, amended: when the input has exactly one match of the postcode pattern and that
  match contains no line feed, the result has the matched text, unchanged, as its trailing
  comma-separated component.
\<close>

theorem unique_postcode_is_trailing:
  assumes uniq: "set (allMatches POSTCODE_REGEX text) = {(k, n)}"
    and nonl: "10 \<notin> set (take n (drop k text))"
  shows "\<exists>addressLines.
      extractAddress U text = Inr (join separator (addressLines @ [take n (drop k text)]))
    \<and> trailingComponent (join separator (addressLines @ [take n (drop k text)]))
        = take n (drop k text)"
proof -
  have "(k, n) \<in> set (allMatches POSTCODE_REGEX text)" using uniq by simp
  then obtain A0 V where t0: "text = A0 @ V" "k = length A0"
    and n: "n \<in> set (rx_ends POSTCODE_REGEX (prevOf None A0) V)"
    unfolding allMatches_iff by blast
  have only: "length X = k \<and> m = n"
    if "text = X @ v'" "m \<in> set (rx_ends POSTCODE_REGEX (prevOf None X) v')" for X v' m
  proof -
    from that have "(length X, m) \<in> set (allMatches POSTCODE_REGEX text)"
      unfolding allMatches_iff by blast
    with uniq show ?thesis by simp
  qed
  let ?M = "take n V"
  let ?B0 = "drop n V"
  have M: "take n (drop k text) = ?M" using t0 by simp
  note st = postcode_start [OF n] and en = postcode_end [OF n]
  have M_ne: "?M \<noteq> []" using en st by simp
  have M_hd: "\<not> isSpace (hd ?M)" using st en by (simp add: letter_not_space)
  have M_last: "\<not> isSpace (last ?M)"
    using en M_ne by (simp add: last_conv_nth min_absorb2 letter_not_space)
  have M_comma: "44 \<notin> set ?M" using postcode_chars [OF n] letter_or_digit_not_comma by blast
  have M_nl: "10 \<notin> set ?M" using nonl M by simp
  have M_len: "length ?M = n" using en by simp
  have "\<forall>m \<in> set (rx_ends POSTCODE_REGEX (prevOf None A0) V). m = n"
    using only [OF t0(1)] by blast
  then obtain rest where ends: "rx_ends POSTCODE_REGEX (prevOf None A0) V = n # rest"
    using n by (cases "rx_ends POSTCODE_REGEX (prevOf None A0) V") auto
  \<comment> \<open>the line of the match\<close>
  from cut_at_last [of A0 10] obtain A1 A2 where A: "A0 = A1 @ A2" "10 \<notin> set A2"
    "A1 = [] \<or> last A1 = 10" by blast
  from cut_at_first [of ?B0 10] obtain B1 B2 where B: "?B0 = B1 @ B2" "10 \<notin> set B1"
    "B2 = [] \<or> hd B2 = 10" by blast
  let ?piece = "A2 @ ?M @ B1"
  have V: "V = ?M @ B1 @ B2" using B(1) by (metis append_take_drop_id)
  have t1: "text = A1 @ ?piece @ B2" using t0 A V by simp
  have piece_nl: "10 \<notin> set ?piece" using A B M_nl by simp
  from split_around [OF piece_nl A(3) B(3)] obtain P1 P2 where
    sp: "split 10 (A1 @ ?piece @ B2) = P1 @ [?piece] @ P2"
    and P1: "\<forall>x \<in> set P1. \<exists>A B. A1 = A @ x @ B \<and> B \<noteq> [] \<and> hd B = 10 \<and> (A = [] \<or> last A = 10)"
    by blast
  from trim_core [OF M_ne M_hd M_last, of A2 B1] obtain w1 a b w2 where
    tr: "trim ?piece = a @ ?M @ b" "A2 = w1 @ a" "B1 = b @ w2"
    "\<forall>x \<in> set w1. isSpace x" "\<forall>x \<in> set w2. isSpace x" by blast
  let ?l = "a @ ?M @ b"
  let ?L1 = "filter (\<lambda>line. length line > 0) (map trim P1)"
  let ?L2 = "filter (\<lambda>line. length line > 0) (map trim P2)"
  have lines: "textLines text = ?L1 @ ?l # ?L2"
    unfolding textLines_def t1 sp using tr(1) M_ne by simp
  have gapA: "\<not> wordBefore (prevOf None (A1 @ w1))" using A(3) tr(4) by (rule not_word_before_gap)
  have gapB: "\<not> wordAt (w2 @ B2)" using B(3) tr(5) by (rule not_word_at_gap)
  \<comment> \<open>no earlier line has a match\<close>
  have L1: "\<forall>l \<in> set ?L1. \<not> rx_test POSTCODE_REGEX l"
  proof
    fix l assume "l \<in> set ?L1"
    then obtain x where x: "x \<in> set P1" "l = trim x" by auto
    from P1 x(1) obtain A B where AB: "A1 = A @ x @ B" "B \<noteq> []" "hd B = 10" "A = [] \<or> last A = 10"
      by blast
    from trim_parts [of x] x(2) obtain v1 v2 where v: "x = v1 @ l @ v2"
      "\<forall>y \<in> set v1. isSpace y" "\<forall>y \<in> set v2. isSpace y" by blast
    show "\<not> rx_test POSTCODE_REGEX l"
    proof
      assume "rx_test POSTCODE_REGEX l"
      then obtain u v where uv0: "l = u @ v" "rx_ends POSTCODE_REGEX (prevOf None u) v \<noteq> []"
        unfolding rx_test_iff by blast
      then obtain m where "m \<in> set (rx_ends POSTCODE_REGEX (prevOf None u) v)"
        by (meson last_in_set)
      with uv0 have uv: "l = u @ v" "m \<in> set (rx_ends POSTCODE_REGEX (prevOf None u) v)"
        by simp_all
      let ?R = "B @ ?piece @ B2"
      have R: "?R \<noteq> [] \<and> hd ?R = 10" using AB by simp
      have g1: "\<not> wordBefore (prevOf None (A @ v1))" using AB(4) v(2) by (rule not_word_before_gap)
      have g2: "\<not> wordAt (v2 @ ?R)"
        using R v(3) not_word_at_gap [of ?R v2] by blast
      from match_embeds [OF POSTCODE_no_anchor g1 g2 uv(2)]
      have "m \<in> set (rx_ends POSTCODE_REGEX (prevOf None ((A @ v1) @ u)) (v @ v2 @ ?R))" .
      moreover have "text = ((A @ v1) @ u) @ (v @ v2 @ ?R)" using t1 AB(1) v(1) uv(1) by simp
      ultimately have "length ((A @ v1) @ u) = k" using only by blast
      moreover have "length ((A @ v1) @ u) < length A1" using AB(1,2) v(1) uv(1) by simp
      moreover have "length A1 \<le> k" using t0(2) A(1) by simp
      ultimately show False by simp
    qed
  qed
  \<comment> \<open>no match in the line before the one found\<close>
  have before: "\<forall>u1 u2. a = u1 @ u2 \<and> u2 \<noteq> []
      \<longrightarrow> rx_ends POSTCODE_REGEX (prevOf None u1) (u2 @ ?M @ b) = []"
  proof (intro allI impI)
    fix u1 u2 assume u: "a = u1 @ u2 \<and> u2 \<noteq> []"
    show "rx_ends POSTCODE_REGEX (prevOf None u1) (u2 @ ?M @ b) = []"
    proof (rule ccontr)
      assume "rx_ends POSTCODE_REGEX (prevOf None u1) (u2 @ ?M @ b) \<noteq> []"
      then obtain m where "m \<in> set (rx_ends POSTCODE_REGEX (prevOf None u1) (u2 @ ?M @ b))"
        by (meson last_in_set)
      from match_embeds [OF POSTCODE_no_anchor gapA gapB this]
      have "m \<in> set (rx_ends POSTCODE_REGEX (prevOf None ((A1 @ w1) @ u1)) ((u2 @ ?M @ b) @ w2 @ B2))" .
      moreover have "text = ((A1 @ w1) @ u1) @ ((u2 @ ?M @ b) @ w2 @ B2)"
        using t1 tr(2,3) u by simp
      ultimately have "length ((A1 @ w1) @ u1) = k" using only by blast
      moreover have "k = length ((A1 @ w1) @ u1) + length u2" using t0(2) A(1) tr(2) u by simp
      ultimately show False using u by simp
    qed
  qed
  \<comment> \<open>the match in the line\<close>
  have "wordBefore (prevOf None A0) = wordBefore (prevOf None a)"
    using st(1) A(1) tr(2) by (cases "a = []") (auto simp: prevOf_def wordBefore_def)
  then have "rx_ends POSTCODE_REGEX (prevOf None a) ((?M @ b) @ w2 @ B2) = n # rest"
    using rx_ends_prev [OF POSTCODE_no_anchor(2), of "prevOf None a" "prevOf None A0"] ends V tr(3)
    by simp
  moreover have "filter (\<lambda>m. m \<le> length (?M @ b)) (rx_ends POSTCODE_REGEX (prevOf None a) ((?M @ b) @ w2 @ B2))
      = rx_ends POSTCODE_REGEX (prevOf None a) (?M @ b)"
    using rx_ends_cut [OF POSTCODE_no_anchor(1) gapB] .
  ultimately have here: "rx_ends POSTCODE_REGEX (prevOf None a) (?M @ b) = n # filter (\<lambda>m. m \<le> length (?M @ b)) rest"
    using M_len by simp
  have "rx_search POSTCODE_REGEX None (a @ ?M @ b) 0
      = rx_search POSTCODE_REGEX (prevOf None a) (?M @ b) (0 + length a)"
    using before by (rule rx_search_skip)
  also have "\<dots> = Some (0 + length a, n)" using here by (rule rx_search_here)
  finally have ex: "rx_exec POSTCODE_REGEX ?l = Some (length a, n)" by (simp add: rx_exec_def)
  then have test: "rx_test POSTCODE_REGEX ?l" by (simp add: rx_test_def)
  \<comment> \<open>the result\<close>
  have fp: "findPostcode (textLines text) 0 = int (length ?L1)"
    unfolding lines using L1 test by (rule findPostcode_first)
  have nth: "textLines text ! length ?L1 = ?l" unfolding lines by (rule nth_append_length)
  from extractAddress_located [OF fp, of U] obtain j' n' ls where
    "rx_exec POSTCODE_REGEX (textLines text ! length ?L1) = Some (j', n')"
    "extractAddress U text
       = Inr (join separator (ls @ [take n' (drop j' (textLines text ! length ?L1))]))"
    by blast
  with ex nth M_len have x: "extractAddress U text = Inr (join separator (ls @ [?M]))" by simp
  from join_last_shape [of separator ls ?M] obtain pre where
    "join separator (ls @ [?M]) = pre @ ?M" "pre = [] \<or> (\<exists>pre'. pre = pre' @ separator)" by blast
  then have "trailingComponent (join separator (ls @ [?M])) = ?M"
    using trailingComponent_last [OF M_comma] by simp
  with x show ?thesis unfolding M by blast
qed

theorem unique_postcode_is_trailing_witness:
  "set (allMatches POSTCODE_REGEX scenarioB) = {(45, 7)}
   \<and> 10 \<notin> set (take 7 (drop 45 scenarioB))
   \<and> take 7 (drop 45 scenarioB) = ascii ''BT1 1AA''
   \<and> (\<exists>addressLines.
      extractAddress id scenarioB = Inr (join separator (addressLines @ [take 7 (drop 45 scenarioB)]))
    \<and> trailingComponent (join separator (addressLines @ [take 7 (drop 45 scenarioB)]))
        = take 7 (drop 45 scenarioB))"
proof -
  have "allMatches POSTCODE_REGEX scenarioB = [(45, 7)]"
    by (simp add: scenarioB_def allMatches_def eval_defs regex_defs class_defs)
  then have h1: "set (allMatches POSTCODE_REGEX scenarioB) = {(45, 7)}" by simp
  have h3: "take 7 (drop 45 scenarioB) = ascii ''BT1 1AA''"
    by (simp add: scenarioB_def ascii_def)
  have h2: "10 \<notin> set (take 7 (drop 45 scenarioB))"
    unfolding h3 by (simp add: ascii_def)
  from unique_postcode_is_trailing [OF h1 h2, of id] h1 h2 h3 show ?thesis by blast
qed

text \<open>
  C8: when a postcode is located, the result ends with the matched postcode as its
  trailing component, and a second run on that result returns the postcode alone, which is
  again its own trailing component.
\<close>

theorem rerun_surfaces_postcode:
  assumes "findPostcode (textLines text) 0 = int k"
  shows "\<exists>addressLines postcode.
      str_match POSTCODE_REGEX (textLines text ! k) = Some postcode
    \<and> extractAddress U text = Inr (join separator (addressLines @ [postcode]))
    \<and> trailingComponent (join separator (addressLines @ [postcode])) = postcode
    \<and> extractAddress U (join separator (addressLines @ [postcode])) = Inr postcode
    \<and> trailingComponent postcode = postcode"
proof -
  let ?lines = "textLines text"
  from extractAddress_located [OF assms, of U]
  obtain j n i' ls ltc' where e: "rx_exec POSTCODE_REGEX (?lines ! k) = Some (j, n)"
    and w: "walkBack U ?lines (int k - 1) [] (min 8 (int k)) = Inr (i', ls, ltc')"
    and x: "extractAddress U text = Inr (join separator (ls @ [take n (drop j (?lines ! k))]))"
    by blast
  from findPostcode_some [OF assms] have k: "k < length ?lines"
    and first: "\<forall>j. 0 \<le> j \<and> j < k \<longrightarrow> \<not> rx_test POSTCODE_REGEX (?lines ! j)" by simp_all
  \<comment> \<open>the match in the postcode line\<close>
  from e have "rx_search POSTCODE_REGEX None (?lines ! k) 0 = Some (j, n)"
    by (simp add: rx_exec_def)
  from rx_search_sound [OF this] obtain u v rest where uv: "?lines ! k = u @ v" "j = length u"
    "rx_ends POSTCODE_REGEX (prevOf None u) v = n # rest" by auto
  let ?pc = "take n v"
  have pc: "take n (drop j (?lines ! k)) = ?pc" using uv by simp
  have n: "n \<in> set (rx_ends POSTCODE_REGEX (prevOf None u) v)" using uv(3) by simp
  note st = postcode_start [OF n] and en = postcode_end [OF n]
  have pc_ne: "?pc \<noteq> []" using en st by simp
  have pc_hd: "isLetter (hd ?pc)" using st en by simp
  have pc_last: "isLetter (last ?pc)"
    using en pc_ne by (simp add: last_conv_nth min_absorb2)
  have pc_chars: "\<forall>y \<in> set ?pc. isLetterOrDigit y \<or> isSpace y"
    using postcode_chars [OF n] by blast
  have pc_comma: "44 \<notin> set ?pc" using pc_chars letter_or_digit_not_comma by blast
  have "?lines ! k \<in> set ?lines" using k by simp
  then have "10 \<notin> set (?lines ! k)" by (rule line_in_text(3))
  then have pc_nl: "10 \<notin> set ?pc" using uv(1) by (auto dest: in_set_takeD)
  \<comment> \<open>the address lines\<close>
  have pre: "- 1 \<le> int k - 1" "int k - 1 < int (length ?lines)" "0 \<le> min 8 (int k)"
    "min 8 (int k) \<le> int k - 1 + 1" "length ([] :: jsstring list) \<le> 4"
    using k by simp_all
  from walkBack_inspected [OF pre, of U] w
  have "ls = filter (accepted U) (drop (nat (i' + 1)) (take k ?lines))" by auto
  then have "set ls \<subseteq> set (take k ?lines)" by (auto dest: in_set_dropD)
  moreover have "\<exists>i < k. l = ?lines ! i" if "l \<in> set (take k ?lines)" for l
  proof -
    from that obtain i where "i < length (take k ?lines)" "take k ?lines ! i = l"
      unfolding in_set_conv_nth by blast
    then show ?thesis using k by auto
  qed
  ultimately have ls: "\<forall>l \<in> set ls. \<exists>i < k. l = ?lines ! i" by blast
  have ls_test: "\<forall>l \<in> set ls. \<not> rx_test POSTCODE_REGEX l" using ls first by auto
  have ls_in: "\<forall>l \<in> set ls. l \<in> set ?lines" using ls k by auto
  \<comment> \<open>the first result\<close>
  let ?out = "join separator (ls @ [?pc])"
  have nb: "\<not> wordBefore None" by (simp add: wordBefore_def)
  from search_joined [OF ls_test uv(3) nb, of 0]
  obtain pre where out: "?out = pre @ ?pc" "pre = [] \<or> (\<exists>pre'. pre = pre' @ separator)"
    "rx_search POSTCODE_REGEX None ?out 0 = Some (length pre, n)" by auto
  have tc: "trailingComponent ?out = ?pc"
    unfolding out(1) using pc_comma out(2) by (rule trailingComponent_last)
  have out_ne: "?out \<noteq> []" using out(1) pc_ne by simp
  have out_last: "\<not> isSpace (last ?out)"
    unfolding out(1) using pc_ne pc_last by (simp add: letter_not_space)
  have out_hd: "\<not> isSpace (hd ?out)"
  proof (cases ls)
    case Nil
    then show ?thesis using pc_hd by (simp add: letter_not_space)
  next
    case (Cons l ls')
    then have "l \<in> set ?lines" using ls_in by simp
    then have "l \<noteq> []" "\<not> isSpace (hd l)" by (rule line_in_text(2), rule line_in_text(4))
    then show ?thesis using Cons hd_join [of "ls @ [?pc]" separator] by simp
  qed
  have "set ?out \<subseteq> set separator \<union> \<Union> (set ` set (ls @ [?pc]))" by (rule set_join)
  moreover have "10 \<notin> set l" if "l \<in> set ls" for l
    using that ls_in line_in_text(3) by blast
  ultimately have out_nl: "10 \<notin> set ?out" using pc_nl by (auto simp: separator_eq)
  \<comment> \<open>the second run\<close>
  have tl: "textLines ?out = [?out]"
    using out_ne out_nl out_hd out_last by (rule textLines_single)
  have ex: "rx_exec POSTCODE_REGEX ?out = Some (length pre, n)"
    using out(3) by (simp add: rx_exec_def)
  then have "rx_test POSTCODE_REGEX ?out" by (simp add: rx_test_def)
  then have fp: "findPostcode [?out] 0 = 0" by (subst findPostcode.simps) simp
  have "take n (drop (length pre) ?out) = ?pc" unfolding out(1) by simp
  then have sm: "str_match POSTCODE_REGEX ?out = Some ?pc" using ex by (simp add: str_match_def)
  have wb: "walkBack U [?out] (- 1) [] 0 = Inr (- 1, [], 0)" by (simp add: walkBack_stop)
  have second: "extractAddress U ?out = Inr ?pc"
    unfolding extractAddress_def tl Let_def using fp sm wb by (simp add: js_nth_def)
  have "str_match POSTCODE_REGEX (?lines ! k) = Some ?pc"
    using e pc by (simp add: str_match_def)
  moreover have "extractAddress U text = Inr ?out" using x pc by simp
  moreover have "trailingComponent ?pc = ?pc"
    using pc_comma by (simp add: trailingComponent_def trailingRev_plain)
  ultimately show ?thesis using tc second by blast
qed

theorem rerun_surfaces_postcode_witness:
  "findPostcode (textLines fiveLines) 0 = int 5
   \<and> (\<exists>addressLines postcode.
      str_match POSTCODE_REGEX (textLines fiveLines ! 5) = Some postcode
    \<and> extractAddress id fiveLines = Inr (join separator (addressLines @ [postcode]))
    \<and> trailingComponent (join separator (addressLines @ [postcode])) = postcode
    \<and> extractAddress id (join separator (addressLines @ [postcode])) = Inr postcode
    \<and> trailingComponent postcode = postcode)"
  using find_fiveLines rerun_surfaces_postcode [OF find_fiveLines, of id] by blast

section \<open>Properties of the noise classifier\<close>

text \<open>
  C7, as stated, fails: the line \<open>"\<pounds>abcdefg1"\<close> has no whitespace and has a letter, a
  digit and a special character, and it is not noise; it is even kept in the address.
\<close>

theorem garbled_token_counterexample:
  "\<not> list_ex isSpace (163 # ascii ''abcdefg1'')
   \<and> list_ex isLetter (163 # ascii ''abcdefg1'')
   \<and> list_ex isDigit (163 # ascii ''abcdefg1'')
   \<and> list_ex isCurrencyEtc (163 # ascii ''abcdefg1'')
   \<and> list_ex isSpecial (163 # ascii ''abcdefg1'')
   \<and> isPackageMetadata id (163 # ascii ''abcdefg1'') = Inr False
   \<and> extractAddress id (163 # ascii ''abcdefg1'' @ [10] @ ascii ''BT1 1AA'')
       = Inr (163 # ascii ''abcdefg1, BT1 1AA'')"
proof -
  have n: "isPackageMetadata id (163 # ascii ''abcdefg1'') = Inr False"
    by (simp add: isPackageMetadata_def eval_defs regex_defs class_defs)
  have v: "isValidAddressLine (163 # ascii ''abcdefg1'') = Inr True"
    by (simp add: isValidAddressLine_def eval_defs regex_defs class_defs)
  have l: "textLines (163 # ascii ''abcdefg1'' @ [10] @ ascii ''BT1 1AA'')
      = [163 # ascii ''abcdefg1'', ascii ''BT1 1AA'']"
    by (simp add: textLines_def ascii_def trim_def isSpace_def)
  have f: "findPostcode [163 # ascii ''abcdefg1'', ascii ''BT1 1AA''] 0 = 1"
    by (simp add: findPostcode.simps eval_defs regex_defs class_defs)
  have m: "str_match POSTCODE_REGEX (ascii ''BT1 1AA'') = Some (ascii ''BT1 1AA'')"
    by (simp add: eval_defs regex_defs class_defs)
  have w: "walkBack id [163 # ascii ''abcdefg1'', ascii ''BT1 1AA''] 0 [] 1
      = Inr (- 1, [163 # ascii ''abcdefg1''], 0)"
    using n v by (simp add: walkBack.simps js_nth_def)
  have x: "extractAddress id (163 # ascii ''abcdefg1'' @ [10] @ ascii ''BT1 1AA'')
       = Inr (163 # ascii ''abcdefg1, BT1 1AA'')"
    unfolding extractAddress_def Let_def l
    using f m w by (simp add: js_nth_def separator_def ascii_def)
  have c: "\<not> list_ex isSpace (163 # ascii ''abcdefg1'')"
    "list_ex isLetter (163 # ascii ''abcdefg1'')"
    "list_ex isDigit (163 # ascii ''abcdefg1'')"
    "list_ex isCurrencyEtc (163 # ascii ''abcdefg1'')"
    "list_ex isSpecial (163 # ascii ''abcdefg1'')"
    by (simp_all add: ascii_def class_defs)
  from c n x show ?thesis by blast
qed

text \<open>
  C7, amended: a line without whitespace in which a letter is followed, somewhere later,
  by a digit, and the digit, somewhere later, by one of \<open>\<pounds>$\<euro>\<yen>#@%&*\<close>, is noise,
  so the assembler does not keep it.
\<close>

theorem garbled_token_is_noise:
  assumes "\<not> list_ex isSpace line"
    and "line = a @ [x] @ b @ [y] @ c @ [z] @ d"
    and "isLetter x" "isDigit y" "isCurrencyEtc z"
  shows "isPackageMetadata U line = Inr True \<and> \<not> accepted U line"
proof -
  have ns: "\<forall>x \<in> set line. \<not> isSpace x" using assms(1) by (simp add: list_ex_iff)
  then have t: "trim line = line" by (rule trim_no_space)
  have nsp: "\<not> rx_test [Chr isSpace] line" using ns by (simp add: rx_test_Chr)
  have "list_all isDot b" "list_all isDot c"
    using ns assms(2) by (auto simp: list_all_iff isDot_if_no_space)
  then have g: "rx_test GARBLED_REGEX line"
    unfolding assms(2) using assms(3-5) by (rule garbled_match)
  have w: "rx_test [Chr isWeird] line"
    unfolding rx_test_Chr using assms(2,5) by (auto simp: isWeird_def)
  have len: "3 \<le> length line" using assms(2) by simp
  have "isPackageMetadata U line = Inr True"
  proof (cases "length line < 4")
    case True
    with w t show ?thesis by (simp add: isPackageMetadata_def)
  next
    case False
    with nsp g t show ?thesis
      by (simp add: isPackageMetadata_def countMatches_eq Let_def)
  qed
  then show ?thesis by (simp add: accepted_def)
qed

theorem garbled_token_is_noise_witness:
  "\<not> list_ex isSpace (ascii ''ab1cdefgh'' @ [163])
   \<and> ascii ''ab1cdefgh'' @ [163] = ascii ''a'' @ [98] @ [] @ [49] @ ascii ''cdefgh'' @ [163] @ []
   \<and> isLetter 98 \<and> isDigit 49 \<and> isCurrencyEtc 163
   \<and> isPackageMetadata id (ascii ''ab1cdefgh'' @ [163]) = Inr True
   \<and> \<not> accepted id (ascii ''ab1cdefgh'' @ [163])"
proof -
  have h: "\<not> list_ex isSpace (ascii ''ab1cdefgh'' @ [163])"
    "ascii ''ab1cdefgh'' @ [163] = ascii ''a'' @ [98] @ [] @ [49] @ ascii ''cdefgh'' @ [163] @ []"
    "isLetter 98" "isDigit 49" "isCurrencyEtc 163"
    by (simp_all add: ascii_def class_defs)
  from garbled_token_is_noise [OF h, of id] h show ?thesis by blast
qed

text \<open>
  C9: on every string both predicates return a boolean and no TypeError, and counting
  the matches of a class never reads the length of \<open>null\<close>. On a line that trims to the
  empty string both quotients are \<open>NaN\<close>, and both predicates return false.
\<close>

theorem classifier_total:
  "(\<exists>b. isPackageMetadata U line = Inr b) \<and> (\<exists>b. isValidAddressLine line = Inr b)
   \<and> (\<exists>n. countMatches c line = Inr n)
   \<and> (trim line = [] \<longrightarrow>
        js_div (length (filter isDigit (trim line))) (length (trim line)) = NaN
      \<and> js_div (length (filter (\<lambda>c. isLetter c \<or> isSpace c) (trim line))) (length (trim line)) = NaN
      \<and> isPackageMetadata U line = Inr False \<and> isValidAddressLine line = Inr False)"
proof -
  have "isPackageMetadata U line = Inr False \<and> isValidAddressLine line = Inr False" if "trim line = []"
    using that
    by (simp add: isPackageMetadata_def isValidAddressLine_def rx_test_eval rx_ends_Chr
        countMatches_eq Let_def regex_defs toUpperCase_def removeSpaces_def js_div_def js_gt_def ascii_def)
  then show ?thesis
    using isPackageMetadata_total [of U line] isValidAddressLine_total [of line]
    by (simp add: countMatches_eq js_div_def)
qed

theorem classifier_total_witness:
  "(\<exists>b. isPackageMetadata id [] = Inr b) \<and> (\<exists>b. isValidAddressLine [] = Inr b)
   \<and> (\<exists>n. countMatches isDigit [] = Inr n)
   \<and> trim [] = []
   \<and> js_div (length (filter isDigit (trim []))) (length (trim [])) = NaN
   \<and> js_div (length (filter (\<lambda>c. isLetter c \<or> isSpace c) (trim []))) (length (trim [])) = NaN
   \<and> isPackageMetadata id [] = Inr False \<and> isValidAddressLine [] = Inr False"
proof -
  have h: "trim [] = []" by (simp add: trim_def)
  from classifier_total [of id "[]" isDigit] h show ?thesis by blast
qed

end
